theory Spec2Isabelle
  imports Main
begin

section \<open>Python values, errors, the world and the state of a run\<close>

text \<open>
  The program \<^verbatim>\<open>gh_stats.py\<close> is dynamically typed: the parsed configuration document and
  every API response are values whose shape the code trusts. They are modelled by one
  datatype of Python values. A dictionary is an association list in insertion order whose
  keys are pairwise distinct strings (what \<^verbatim>\<open>json\<close> and \<^verbatim>\<open>yaml.safe_load\<close> return for
  string keys); floats, dates and non-string keys are outside the model. A Python string is
  a list of code points below 256.
\<close>

datatype pyval =
    PNone
  | PBool bool
  | PInt int
  | PStr string
  | PList "pyval list"
  | PDict "(string \<times> pyval) list"

datatype error =
    KeyError
  | TypeError
  | IndexError
  | StopIteration
  | UnboundLocalError
  | ValueError string
  | OSError
  | RequestError
  | BadParameter

type_synonym headers = "(string \<times> string) list"
type_synonym request = "string \<times> headers"

text \<open>
  Everything the program reads from outside is a field of the world:
  \<^verbatim>\<open>requests.get(url, headers=h).json()\<close>, \<^verbatim>\<open>os.getenv\<close>, opening and loading the YAML
  file, whether a path can be opened for writing, Python's \<^verbatim>\<open>repr\<close> of a list or a
  dictionary (used when such a value is formatted as text), and whether a path names an
  existing, readable file or directory (what \<^verbatim>\<open>click.Path(exists=True)\<close> checks).
\<close>

record world =
  http_get :: "request \<Rightarrow> error + pyval"
  getenv :: "string \<Rightarrow> string option"
  yaml_load :: "string \<Rightarrow> error + pyval"
  can_open :: "string \<Rightarrow> bool"
  py_repr :: "pyval \<Rightarrow> string"
  path_exists :: "string \<Rightarrow> bool"

datatype console_event =
    Print string
  | RichTable string "string list" "string list list"

text \<open>
  The effects of a run: the requests issued so far (oldest first), the files written
  (path to content) and what went to the console.
\<close>

record run_state =
  reqs :: "request list"
  files :: "string \<Rightarrow> string option"
  console :: "console_event list"

section \<open>Python primitives the program uses\<close>

definition digit_char :: "nat \<Rightarrow> char" where
  "digit_char n = ''0123456789'' ! n"

function str_nat :: "nat \<Rightarrow> string" where
  "str_nat n = (if n < 10 then [digit_char n] else str_nat (n div 10) @ [digit_char (n mod 10)])"
  by pat_completeness auto
termination
  by (relation "measure (\<lambda>n. n)") auto

declare str_nat.simps [simp del]

definition str_int :: "int \<Rightarrow> string" where
  "str_int i = (if i < 0 then CHR ''-'' # str_nat (nat (- i)) else str_nat (nat i))"

text \<open>\<^verbatim>\<open>str(v)\<close>, which is also what an f-string field \<^verbatim>\<open>{v}\<close> produces.\<close>

definition py_str :: "world \<Rightarrow> pyval \<Rightarrow> string" where
  "py_str w v =
     (case v of
        PNone \<Rightarrow> ''None''
      | PBool b \<Rightarrow> (if b then ''True'' else ''False'')
      | PInt i \<Rightarrow> str_int i
      | PStr s \<Rightarrow> s
      | PList xs \<Rightarrow> py_repr w v
      | PDict kvs \<Rightarrow> py_repr w v)"

text \<open>Truthiness of an optional command-line string: \<^verbatim>\<open>None\<close> and \<^verbatim>\<open>""\<close> are false.\<close>

definition truthy :: "string option \<Rightarrow> bool" where
  "truthy x = (case x of None \<Rightarrow> False | Some s \<Rightarrow> s \<noteq> [])"

text \<open>Indexing a sequence with an integer: negative indices count from the end.\<close>

definition py_index :: "'a list \<Rightarrow> int \<Rightarrow> error + 'a" where
  "py_index xs i =
     (let n = int (length xs); j = (if i < 0 then i + n else i)
      in if 0 \<le> j \<and> j < n then Inr (xs ! nat j) else Inl IndexError)"

text \<open>\<^verbatim>\<open>obj[key]\<close> for every shape of \<^verbatim>\<open>obj\<close> and \<^verbatim>\<open>key\<close>.\<close>

definition py_getitem :: "pyval \<Rightarrow> pyval \<Rightarrow> error + pyval" where
  "py_getitem obj key =
     (case obj of
        PDict kvs \<Rightarrow>
          (case key of
             PStr k \<Rightarrow> (case map_of kvs k of None \<Rightarrow> Inl KeyError | Some v \<Rightarrow> Inr v)
           | PList xs \<Rightarrow> Inl TypeError
           | PDict ys \<Rightarrow> Inl TypeError
           | _ \<Rightarrow> Inl KeyError)
      | PList xs \<Rightarrow>
          (case key of
             PInt i \<Rightarrow> py_index xs i
           | PBool b \<Rightarrow> py_index xs (if b then 1 else 0)
           | _ \<Rightarrow> Inl TypeError)
      | PStr s \<Rightarrow>
          (case key of
             PInt i \<Rightarrow> map_sum id (\<lambda>c. PStr [c]) (py_index s i)
           | PBool b \<Rightarrow> map_sum id (\<lambda>c. PStr [c]) (py_index s (if b then 1 else 0))
           | _ \<Rightarrow> Inl TypeError)
      | _ \<Rightarrow> Inl TypeError)"

definition subscript_str :: "pyval \<Rightarrow> string \<Rightarrow> error + pyval" where
  "subscript_str obj k = py_getitem obj (PStr k)"

text \<open>The items a \<^verbatim>\<open>for\<close> loop over the value visits: a dictionary yields its keys.\<close>

definition py_iter :: "pyval \<Rightarrow> error + pyval list" where
  "py_iter v =
     (case v of
        PList xs \<Rightarrow> Inr xs
      | PDict kvs \<Rightarrow> Inr (map (\<lambda>kv. PStr (fst kv)) kvs)
      | PStr s \<Rightarrow> Inr (map (\<lambda>c. PStr [c]) s)
      | _ \<Rightarrow> Inl TypeError)"

text \<open>\<^verbatim>\<open>next(iter(v))\<close>.\<close>

definition py_next_iter :: "pyval \<Rightarrow> error + pyval" where
  "py_next_iter v =
     (case py_iter v of
        Inl e \<Rightarrow> Inl e
      | Inr [] \<Rightarrow> Inl StopIteration
      | Inr (x # xs) \<Rightarrow> Inr x)"

fun collect :: "('a \<Rightarrow> error + 'b) \<Rightarrow> 'a list \<Rightarrow> error + 'b list" where
  "collect f [] = Inr []"
| "collect f (x # xs) =
     (case f x of
        Inl e \<Rightarrow> Inl e
      | Inr y \<Rightarrow> (case collect f xs of Inl e \<Rightarrow> Inl e | Inr ys \<Rightarrow> Inr (y # ys)))"

subsection \<open>\<^verbatim>\<open>str.strip\<close>\<close>

definition py_isspace :: "char \<Rightarrow> bool" where
  "py_isspace c = ((of_char c :: nat) \<in> set [9, 10, 11, 12, 13, 28, 29, 30, 31, 32, 133, 160])"

definition strip_chars :: "(char \<Rightarrow> bool) \<Rightarrow> string \<Rightarrow> string" where
  "strip_chars p s = rev (dropWhile p (rev (dropWhile p s)))"

definition py_strip :: "string \<Rightarrow> string" where
  "py_strip s = strip_chars py_isspace s"

definition py_strip_slash :: "string \<Rightarrow> string" where
  "py_strip_slash s = strip_chars (\<lambda>c. c = CHR ''/'') s"

subsection \<open>\<^verbatim>\<open>pathlib.Path\<close> on a POSIX system\<close>

fun split_on :: "'a \<Rightarrow> 'a list \<Rightarrow> 'a list list" where
  "split_on d [] = [[]]"
| "split_on d (x # xs) =
     (let r = split_on d xs in if x = d then [] # r else (x # hd r) # tl r)"

fun intercalate :: "'a list \<Rightarrow> 'a list list \<Rightarrow> 'a list" where
  "intercalate sep [] = []"
| "intercalate sep [x] = x"
| "intercalate sep (x # y # ys) = x @ sep @ intercalate sep (y # ys)"

definition path_root :: "string \<Rightarrow> string" where
  "path_root p =
     (if take 1 p \<noteq> ''/'' then ''''
      else if take 1 (drop 1 p) \<noteq> ''/'' \<or> take 1 (drop 2 p) = ''/'' then ''/''
      else ''//'')"

definition path_parts :: "string \<Rightarrow> string list" where
  "path_parts p = filter (\<lambda>x. x \<noteq> [] \<and> x \<noteq> ''.'') (split_on (CHR ''/'') p)"

text \<open>\<^verbatim>\<open>str(Path(p))\<close>: the name under which \<^verbatim>\<open>open(Path(p), "w")\<close> creates the file.\<close>

definition path_str :: "string \<Rightarrow> string" where
  "path_str p =
     (if path_root p = [] \<and> path_parts p = [] then ''.''
      else path_root p @ intercalate ''/'' (path_parts p))"

definition path_name :: "string \<Rightarrow> string" where
  "path_name p = (if path_parts p = [] then [] else last (path_parts p))"

definition rfind :: "char \<Rightarrow> string \<Rightarrow> int" where
  "rfind c s =
     (if c \<in> set s then int (length s) - 1 - int (length (takeWhile (\<lambda>x. x \<noteq> c) (rev s)))
      else - 1)"

text \<open>\<^verbatim>\<open>Path(p).suffix\<close> (CPython up to 3.13).\<close>

definition path_suffix :: "string \<Rightarrow> string" where
  "path_suffix p =
     (let name = path_name p; i = rfind (CHR ''.'') name
      in if 0 < i \<and> i < int (length name) - 1 then drop (nat i) name else [])"

subsection \<open>\<^verbatim>\<open>csv.DictWriter\<close> with the default dialect\<close>

definition CR :: char where "CR = CHR 0x0D"
definition LF :: char where "LF = CHR 0x0A"
definition DQUOTE :: char where "DQUOTE = CHR 0x22"

definition csv_special :: "char \<Rightarrow> bool" where
  "csv_special c = (c = CHR '','' \<or> c = DQUOTE \<or> c = CR \<or> c = LF)"

definition csv_field :: "string \<Rightarrow> string" where
  "csv_field s =
     (if list_ex csv_special s
      then [DQUOTE] @ concat (map (\<lambda>c. if c = DQUOTE then [c, c] else [c]) s) @ [DQUOTE]
      else s)"

definition csv_cell :: "world \<Rightarrow> pyval \<Rightarrow> string" where
  "csv_cell w v = (case v of PNone \<Rightarrow> [] | _ \<Rightarrow> py_str w v)"

definition csv_row :: "string list \<Rightarrow> string" where
  "csv_row cells = intercalate '','' (map csv_field cells) @ [CR, LF]"

subsection \<open>\<^verbatim>\<open>json.dumps(v, indent=4)\<close>\<close>

definition hex_digit :: "nat \<Rightarrow> char" where
  "hex_digit n = ''0123456789abcdef'' ! n"

definition json_escape :: "char \<Rightarrow> string" where
  "json_escape c =
     (let n = (of_char c :: nat) in
      if c = DQUOTE then [CHR 0x5C, DQUOTE]
      else if c = CHR 0x5C then [CHR 0x5C, CHR 0x5C]
      else if c = CHR 0x0A then [CHR 0x5C, CHR ''n'']
      else if c = CHR 0x0D then [CHR 0x5C, CHR ''r'']
      else if c = CHR 0x09 then [CHR 0x5C, CHR ''t'']
      else if c = CHR 0x08 then [CHR 0x5C, CHR ''b'']
      else if c = CHR 0x0C then [CHR 0x5C, CHR ''f'']
      else if 32 \<le> n \<and> n \<le> 126 then [c]
      else [CHR 0x5C, CHR ''u'', CHR ''0'', CHR ''0'', hex_digit (n div 16), hex_digit (n mod 16)])"

definition json_str :: "string \<Rightarrow> string" where
  "json_str s = [DQUOTE] @ concat (map json_escape s) @ [DQUOTE]"

definition newline_indent :: "nat \<Rightarrow> string" where
  "newline_indent lvl = LF # replicate (4 * lvl) (CHR '' '')"

fun dumps_at :: "nat \<Rightarrow> pyval \<Rightarrow> string"
  and dumps_items :: "nat \<Rightarrow> pyval list \<Rightarrow> string"
  and dumps_pairs :: "nat \<Rightarrow> (string \<times> pyval) list \<Rightarrow> string"
where
  "dumps_at lvl PNone = ''null''"
| "dumps_at lvl (PBool b) = (if b then ''true'' else ''false'')"
| "dumps_at lvl (PInt i) = str_int i"
| "dumps_at lvl (PStr s) = json_str s"
| "dumps_at lvl (PList xs) =
     (if xs = [] then ''[]''
      else ''['' @ newline_indent (Suc lvl) @ dumps_items (Suc lvl) xs @ newline_indent lvl @ '']'')"
| "dumps_at lvl (PDict kvs) =
     (if kvs = [] then ''{}''
      else ''{'' @ newline_indent (Suc lvl) @ dumps_pairs (Suc lvl) kvs @ newline_indent lvl @ ''}'')"
| "dumps_items lvl [] = []"
| "dumps_items lvl (x # xs) =
     dumps_at lvl x @ (if xs = [] then [] else '','' @ newline_indent lvl @ dumps_items lvl xs)"
| "dumps_pairs lvl [] = []"
| "dumps_pairs lvl (kv # kvs) =
     json_str (fst kv) @ '': '' @ dumps_at lvl (snd kv)
       @ (if kvs = [] then [] else '','' @ newline_indent lvl @ dumps_pairs lvl kvs)"

definition json_dumps :: "pyval \<Rightarrow> string" where
  "json_dumps v = dumps_at 0 v"

section \<open>The program\<close>

subsection \<open>\<^verbatim>\<open>get_repo_data\<close>\<close>

text \<open>One \<^verbatim>\<open>requests.get(url, headers=headers).json()\<close>: the request is issued, then answered.\<close>

definition request_json ::
  "world \<Rightarrow> headers \<Rightarrow> string \<Rightarrow> run_state \<Rightarrow> (error + pyval) \<times> run_state" where
  "request_json w h url s = (http_get w (url, h), s\<lparr>reqs := reqs s @ [(url, h)]\<rparr>)"

definition repo_url :: "world \<Rightarrow> pyval \<Rightarrow> pyval \<Rightarrow> string" where
  "repo_url w owner repo = ''https://api.github.com/repos/'' @ py_str w owner @ ''/'' @ py_str w repo"

text \<open>The dictionary literal that \<^verbatim>\<open>get_repo_data\<close> returns, its values looked up in source order.\<close>

definition build_record ::
  "world \<Rightarrow> pyval \<Rightarrow> pyval \<Rightarrow> pyval \<Rightarrow> pyval \<Rightarrow> pyval \<Rightarrow> error + pyval" where
  "build_record w owner repo resp_data views clones =
     (case subscript_str resp_data ''forks_count'' of Inl e \<Rightarrow> Inl e | Inr forks \<Rightarrow>
      case subscript_str resp_data ''stargazers_count'' of Inl e \<Rightarrow> Inl e | Inr stars \<Rightarrow>
      case subscript_str resp_data ''watchers_count'' of Inl e \<Rightarrow> Inl e | Inr watchers \<Rightarrow>
      case subscript_str clones ''count'' of Inl e \<Rightarrow> Inl e | Inr clones_total \<Rightarrow>
      case subscript_str clones ''uniques'' of Inl e \<Rightarrow> Inl e | Inr clones_unique \<Rightarrow>
      case subscript_str views ''count'' of Inl e \<Rightarrow> Inl e | Inr views_total \<Rightarrow>
      case subscript_str views ''uniques'' of Inl e \<Rightarrow> Inl e | Inr views_unique \<Rightarrow>
        Inr (PDict
          [(''Repo'', PStr (py_str w owner @ ''/'' @ py_str w repo)),
           (''Forks'', forks),
           (''Stars'', stars),
           (''Watchers'', watchers),
           (''Clones Total'', clones_total),
           (''Clones Unique'', clones_unique),
           (''Views Total'', views_total),
           (''Views Unique'', views_unique)]))"

definition get_repo_data ::
  "world \<Rightarrow> headers \<Rightarrow> pyval \<Rightarrow> pyval \<Rightarrow> run_state \<Rightarrow> (error + pyval) \<times> run_state" where
  "get_repo_data w headers owner repo s =
     (case request_json w headers (repo_url w owner repo) s of
        (Inl e, s1) \<Rightarrow> (Inl e, s1)
      | (Inr resp_data, s1) \<Rightarrow>
     (case request_json w headers (repo_url w owner repo @ ''/traffic/views'') s1 of
        (Inl e, s2) \<Rightarrow> (Inl e, s2)
      | (Inr views, s2) \<Rightarrow>
     (case request_json w headers (repo_url w owner repo @ ''/traffic/clones'') s2 of
        (Inl e, s3) \<Rightarrow> (Inl e, s3)
      | (Inr clones, s3) \<Rightarrow> (build_record w owner repo resp_data views clones, s3))))"

subsection \<open>\<^verbatim>\<open>main\<close>: the token, the repository source, the fetch loop\<close>

text \<open>
  Lines 55 to 61. Neither \<^verbatim>\<open>os.getenv\<close> nor the f-string raises, so the \<^verbatim>\<open>except\<close> branch
  (which builds a \<^verbatim>\<open>ValueError\<close> without raising it) is never entered; an absent variable
  is \<^verbatim>\<open>None\<close> and is formatted as the text \<^verbatim>\<open>None\<close>.
\<close>

definition resolve_headers :: "world \<Rightarrow> string option \<Rightarrow> headers" where
  "resolve_headers w auth_token =
     (if truthy auth_token
      then [(''Authorization'', ''token '' @ (case auth_token of Some t \<Rightarrow> t | None \<Rightarrow> []))]
      else [(''Authorization'',
             ''token '' @ (case getenv w ''GH_TOKEN'' of None \<Rightarrow> ''None'' | Some t \<Rightarrow> t))])"

text \<open>
  Lines 67 to 70 and 72 to 75, which differ only in \<^verbatim>\<open>orgs\<close> against \<^verbatim>\<open>users\<close> in the URL.
\<close>

definition owner_of :: "string \<Rightarrow> string" where
  "owner_of name = py_strip_slash (py_strip name)"

definition listing_url :: "string \<Rightarrow> string \<Rightarrow> string" where
  "listing_url kind name = ''https://api.github.com/'' @ kind @ ''/'' @ owner_of name @ ''/repos''"

definition list_repos ::
  "world \<Rightarrow> headers \<Rightarrow> string \<Rightarrow> string \<Rightarrow> run_state \<Rightarrow> (error + pyval) \<times> run_state" where
  "list_repos w h kind name s =
     (case request_json w h (listing_url kind name) s of
        (Inl e, s1) \<Rightarrow> (Inl e, s1)
      | (Inr org_repos, s1) \<Rightarrow>
          (case py_iter org_repos of
             Inl e \<Rightarrow> (Inl e, s1)
           | Inr items \<Rightarrow>
               (case collect (\<lambda>repo. subscript_str repo ''name'') items of
                  Inl e \<Rightarrow> (Inl e, s1)
                | Inr repo_names \<Rightarrow>
                    (Inr (PDict [(''Owners'', PList [PDict [(owner_of name, PList repo_names)]])]),
                     s1))))"

text \<open>
  Lines 64 to 75. With no selector the name \<^verbatim>\<open>repos_dict\<close> stays unbound, which is the
  result \<open>None\<close> here.
\<close>

definition resolve_source ::
  "world \<Rightarrow> headers \<Rightarrow> string option \<Rightarrow> string option \<Rightarrow> string option \<Rightarrow> run_state
     \<Rightarrow> (error + pyval option) \<times> run_state" where
  "resolve_source w h repos org user s =
     (if truthy repos then
        (case yaml_load w (case repos of Some p \<Rightarrow> p | None \<Rightarrow> []) of
           Inl e \<Rightarrow> (Inl e, s)
         | Inr d \<Rightarrow> (Inr (Some d), s))
      else if truthy org then
        (case list_repos w h ''orgs'' (case org of Some n \<Rightarrow> n | None \<Rightarrow> []) s of
           (Inl e, s1) \<Rightarrow> (Inl e, s1)
         | (Inr d, s1) \<Rightarrow> (Inr (Some d), s1))
      else if truthy user then
        (case list_repos w h ''users'' (case user of Some n \<Rightarrow> n | None \<Rightarrow> []) s of
           (Inl e, s1) \<Rightarrow> (Inl e, s1)
         | (Inr d, s1) \<Rightarrow> (Inr (Some d), s1))
      else (Inr None, s))"

text \<open>Lines 83 and 84: the inner loop, appending to \<^verbatim>\<open>final_data\<close>.\<close>

fun fetch_repos ::
  "world \<Rightarrow> headers \<Rightarrow> pyval \<Rightarrow> pyval list \<Rightarrow> pyval list \<Rightarrow> run_state
     \<Rightarrow> (error + pyval list) \<times> run_state" where
  "fetch_repos w h key [] final_data s = (Inr final_data, s)"
| "fetch_repos w h key (repo # rest) final_data s =
     (case get_repo_data w h key repo s of
        (Inl e, s1) \<Rightarrow> (Inl e, s1)
      | (Inr d, s1) \<Rightarrow> fetch_repos w h key rest (final_data @ [d]) s1)"

text \<open>Lines 81 to 84: the outer loop over \<^verbatim>\<open>repos_dict["Owners"]\<close>.\<close>

fun fetch_owners ::
  "world \<Rightarrow> headers \<Rightarrow> pyval list \<Rightarrow> pyval list \<Rightarrow> run_state
     \<Rightarrow> (error + pyval list) \<times> run_state" where
  "fetch_owners w h [] final_data s = (Inr final_data, s)"
| "fetch_owners w h (repo_owner # rest) final_data s =
     (case py_next_iter repo_owner of
        Inl e \<Rightarrow> (Inl e, s)
      | Inr key \<Rightarrow>
     (case py_getitem repo_owner key of
        Inl e \<Rightarrow> (Inl e, s)
      | Inr v \<Rightarrow>
     (case py_iter v of
        Inl e \<Rightarrow> (Inl e, s)
      | Inr repos \<Rightarrow>
     (case fetch_repos w h key repos final_data s of
        (Inl e, s1) \<Rightarrow> (Inl e, s1)
      | (Inr final_data1, s1) \<Rightarrow> fetch_owners w h rest final_data1 s1))))"

definition fetch_all ::
  "world \<Rightarrow> headers \<Rightarrow> pyval \<Rightarrow> run_state \<Rightarrow> (error + pyval list) \<times> run_state" where
  "fetch_all w h repos_dict s =
     (case subscript_str repos_dict ''Owners'' of
        Inl e \<Rightarrow> (Inl e, s)
      | Inr owners \<Rightarrow>
          (case py_iter owners of
             Inl e \<Rightarrow> (Inl e, s)
           | Inr entries \<Rightarrow> fetch_owners w h entries [] s))"

subsection \<open>\<^verbatim>\<open>main\<close>: the output\<close>

definition fieldnames :: "string list" where
  "fieldnames =
     [''Repo'', ''Forks'', ''Stars'', ''Watchers'',
      ''Clones Total'', ''Clones Unique'', ''Views Total'', ''Views Unique'']"

text \<open>
  The eight lookups \<^verbatim>\<open>data["Repo"]\<close>, ..., \<^verbatim>\<open>data["Views Unique"]\<close> of lines 112 to 119 (and of
  lines 147 to 154), in that order.
\<close>

definition row_values :: "pyval \<Rightarrow> error + pyval list" where
  "row_values data = collect (\<lambda>k. subscript_str data k) fieldnames"

text \<open>
  Lines 109 to 121: one \<^verbatim>\<open>writer.writerow\<close> per record, after the text already written. When
  a lookup raises, the \<^verbatim>\<open>with\<close> block closes the file with what was written before.
\<close>

fun write_rows :: "world \<Rightarrow> pyval list \<Rightarrow> string \<Rightarrow> error option \<times> string" where
  "write_rows w [] written = (None, written)"
| "write_rows w (data # rest) written =
     (case row_values data of
        Inl e \<Rightarrow> (Some e, written)
      | Inr cells \<Rightarrow> write_rows w rest (written @ csv_row (map (csv_cell w) cells)))"

text \<open>Lines 94 to 121: \<^verbatim>\<open>writeheader\<close>, then the rows.\<close>

definition write_csv :: "world \<Rightarrow> pyval list \<Rightarrow> error option \<times> string" where
  "write_csv w final_data = write_rows w final_data (csv_row fieldnames)"

definition print_line :: "string \<Rightarrow> run_state \<Rightarrow> run_state" where
  "print_line msg s = s\<lparr>console := console s @ [Print msg]\<rparr>"

definition write_file :: "string \<Rightarrow> string \<Rightarrow> run_state \<Rightarrow> run_state" where
  "write_file path content s = s\<lparr>files := (files s)(path \<mapsto> content)\<rparr>"

text \<open>Lines 145 to 155: the cells of the console table, \<^verbatim>\<open>str\<close> of each looked-up value.\<close>

definition table_rows :: "world \<Rightarrow> pyval list \<Rightarrow> error + string list list" where
  "table_rows w final_data =
     collect (\<lambda>data. case row_values data of Inl e \<Rightarrow> Inl e | Inr vs \<Rightarrow> Inr (map (py_str w) vs))
       final_data"

text \<open>Lines 88 to 158.\<close>

definition emit_output ::
  "world \<Rightarrow> string option \<Rightarrow> pyval list \<Rightarrow> run_state \<Rightarrow> (error + unit) \<times> run_state" where
  "emit_output w output_file final_data s =
     (if truthy output_file then
        (let file_path = (case output_file of Some p \<Rightarrow> p | None \<Rightarrow> []) in
         if path_suffix file_path = ''.csv'' then
           (let s1 = print_line ''Creating CSV'' s in
            if \<not> can_open w ''data.csv'' then (Inl OSError, s1)
            else
              (case write_csv w final_data of
                 (Some e, written) \<Rightarrow> (Inl e, write_file ''data.csv'' written s1)
               | (None, written) \<Rightarrow>
                   (Inr (), print_line ''CSV file created.'' (write_file ''data.csv'' written s1))))
         else if path_suffix file_path = ''.json'' then
           (let s1 = print_line ''Creating JSON'' s in
            if \<not> can_open w (path_str file_path) then (Inl OSError, s1)
            else
              (Inr (),
               write_file (path_str file_path)
                 (json_dumps (PDict [(''Data'', PList final_data)])) s1))
         else (Inl (ValueError ''Output file must be CSV or JSON''), s))
      else
        (case table_rows w final_data of
           Inl e \<Rightarrow> (Inl e, s)
         | Inr rows \<Rightarrow>
             (Inr (), s\<lparr>console := console s @ [RichTable ''GitHub Stats'' fieldnames rows]\<rparr>)))"

text \<open>Lines 55 to 84: everything before the output.\<close>

definition fetch_stage ::
  "world \<Rightarrow> string option \<Rightarrow> string option \<Rightarrow> string option \<Rightarrow> string option
     \<Rightarrow> run_state \<Rightarrow> (error + pyval list) \<times> run_state" where
  "fetch_stage w repos org user auth_token s =
     (let HEADERS = resolve_headers w auth_token in
      case resolve_source w HEADERS repos org user s of
        (Inl e, s1) \<Rightarrow> (Inl e, s1)
      | (Inr None, s1) \<Rightarrow> (Inl UnboundLocalError, s1)
      | (Inr (Some repos_dict), s1) \<Rightarrow> fetch_all w HEADERS repos_dict s1)"

text \<open>
  Lines 51 to 158: the body of the command, as click calls it once the options are converted.
\<close>

definition main ::
  "world \<Rightarrow> string option \<Rightarrow> string option \<Rightarrow> string option \<Rightarrow> string option \<Rightarrow> string option
     \<Rightarrow> run_state \<Rightarrow> (error + unit) \<times> run_state" where
  "main w repos org user output_file auth_token s =
     (case fetch_stage w repos org user auth_token s of
        (Inl e, s2) \<Rightarrow> (Inl e, s2)
      | (Inr final_data, s2) \<Rightarrow> emit_output w output_file final_data s2)"

text \<open>
  Lines 45 to 51: the command click builds around the body. Before the body runs click
  converts the options. \<^verbatim>\<open>--repos\<close> has the type \<^verbatim>\<open>click.Path(exists=True)\<close> (line 46): a value
  that names no existing path, as the empty string never does, is refused with
  \<^verbatim>\<open>BadParameter\<close>, and the body is not entered. The other options are plain strings.
\<close>

definition gh_stats ::
  "world \<Rightarrow> string option \<Rightarrow> string option \<Rightarrow> string option \<Rightarrow> string option \<Rightarrow> string option
     \<Rightarrow> run_state \<Rightarrow> (error + unit) \<times> run_state" where
  "gh_stats w repos org user output_file auth_token s =
     (case repos of
        None \<Rightarrow> main w None org user output_file auth_token s
      | Some p \<Rightarrow>
          if p \<noteq> [] \<and> path_exists w p
          then main w (Some p) org user output_file auth_token s
          else (Inl BadParameter, s))"

section \<open>Notions of the specification\<close>

text \<open>
  A RepoSource as the specification describes it: an ordered list of single-key mappings,
  each from one owner name to an ordered list of repository names. \<open>source_value\<close> is the
  Python value such a source is (the shape lines 70 and 75 build, and the documented shape of
  the configuration file); \<open>source_pairs\<close> lists its (owner, repo) pairs in order.
\<close>

type_synonym repo_source = "(string \<times> string list) list"

definition source_value :: "repo_source \<Rightarrow> pyval" where
  "source_value src =
     PDict [(''Owners'',
       PList (map (\<lambda>entry. PDict [(fst entry, PList (map PStr (snd entry)))]) src))]"

definition source_pairs :: "repo_source \<Rightarrow> (string \<times> string) list" where
  "source_pairs src = concat (map (\<lambda>entry. map (\<lambda>repo. (fst entry, repo)) (snd entry)) src)"

text \<open>The three requests one call of the stats fetcher issues for a pair.\<close>

definition pair_requests :: "headers \<Rightarrow> string \<times> string \<Rightarrow> request list" where
  "pair_requests h p =
     [(''https://api.github.com/repos/'' @ fst p @ ''/'' @ snd p, h),
      (''https://api.github.com/repos/'' @ fst p @ ''/'' @ snd p @ ''/traffic/views'', h),
      (''https://api.github.com/repos/'' @ fst p @ ''/'' @ snd p @ ''/traffic/clones'', h)]"

text \<open>
  The specification's fetch loop: the stats fetcher called once for each pair of a list, in
  order, each record appended to the ones before; the first failure ends the run.
\<close>

fun fetch_each_pair ::
  "world \<Rightarrow> headers \<Rightarrow> (string \<times> string) list \<Rightarrow> pyval list \<Rightarrow> run_state
     \<Rightarrow> (error + pyval list) \<times> run_state" where
  "fetch_each_pair w h [] records s = (Inr records, s)"
| "fetch_each_pair w h (p # rest) records s =
     (case get_repo_data w h (PStr (fst p)) (PStr (snd p)) s of
        (Inl e, s1) \<Rightarrow> (Inl e, s1)
      | (Inr d, s1) \<Rightarrow> fetch_each_pair w h rest (records @ [d]) s1)"

section \<open>A concrete world\<close>

text \<open>
  The owner \<^verbatim>\<open>acme\<close> with the repositories \<^verbatim>\<open>widgets\<close> and \<^verbatim>\<open>gadgets\<close>, no token in the
  environment, and the configuration file \<^verbatim>\<open>repos.yml\<close> listing both repositories.
\<close>

definition acme_source :: repo_source where
  "acme_source = [(''acme'', [''widgets'', ''gadgets''])]"

definition acme_detail :: pyval where
  "acme_detail =
     PDict [(''forks_count'', PInt 3), (''stargazers_count'', PInt 10), (''watchers_count'', PInt 10)]"

definition acme_views :: pyval where
  "acme_views = PDict [(''count'', PInt 50), (''uniques'', PInt 20)]"

definition acme_clones :: pyval where
  "acme_clones = PDict [(''count'', PInt 5), (''uniques'', PInt 4)]"

definition acme_listing :: pyval where
  "acme_listing = PList [PDict [(''name'', PStr ''widgets'')], PDict [(''name'', PStr ''gadgets'')]]"

definition acme_http :: "request \<Rightarrow> error + pyval" where
  "acme_http rq =
     (let url = fst rq in
      if url = ''https://api.github.com/repos/acme/widgets'' then Inr acme_detail
      else if url = ''https://api.github.com/repos/acme/widgets/traffic/views'' then Inr acme_views
      else if url = ''https://api.github.com/repos/acme/widgets/traffic/clones'' then Inr acme_clones
      else if url = ''https://api.github.com/repos/acme/gadgets'' then Inr acme_detail
      else if url = ''https://api.github.com/repos/acme/gadgets/traffic/views'' then Inr acme_views
      else if url = ''https://api.github.com/repos/acme/gadgets/traffic/clones'' then Inr acme_clones
      else if url = ''https://api.github.com/orgs/acme/repos'' then Inr acme_listing
      else if url = ''https://api.github.com/users/acme/repos'' then Inr acme_listing
      else Inl RequestError)"

definition acme_world :: world where
  "acme_world =
     \<lparr>http_get = acme_http,
      getenv = (\<lambda>name. None),
      yaml_load = (\<lambda>path. if path = ''repos.yml'' then Inr (source_value acme_source) else Inl OSError),
      can_open = (\<lambda>path. True),
      py_repr = (\<lambda>v. []),
      path_exists = (\<lambda>path. path = ''repos.yml'')\<rparr>"

definition empty_state :: run_state where
  "empty_state = \<lparr>reqs = [], files = (\<lambda>path. None), console = []\<rparr>"

definition acme_record :: "string \<Rightarrow> pyval" where
  "acme_record name =
     PDict
       [(''Repo'', PStr name),
        (''Forks'', PInt 3),
        (''Stars'', PInt 10),
        (''Watchers'', PInt 10),
        (''Clones Total'', PInt 5),
        (''Clones Unique'', PInt 4),
        (''Views Total'', PInt 50),
        (''Views Unique'', PInt 20)]"

definition two_key_source :: "(string \<times> string list \<times> (string \<times> pyval) list) list" where
  "two_key_source = [(''acme'', [''widgets''], [(''umbrella'', PList [PStr ''rain''])])]"

section \<open>Notions used in the proofs\<close>

text \<open>
  \<open>issues h s s'\<close>: the state \<open>s'\<close> is \<open>s\<close> after some further requests, all carrying the
  headers \<open>h\<close>; files and console are the same.
\<close>

definition issues :: "headers \<Rightarrow> run_state \<Rightarrow> run_state \<Rightarrow> bool" where
  "issues h s s' = (\<exists>new. s' = s\<lparr>reqs := reqs s @ new\<rparr> \<and> list_all (\<lambda>rq. snd rq = h) new)"


text \<open>An entry of the \<^verbatim>\<open>Owners\<close> list cut down to its first key.\<close>

fun first_key_only :: "pyval \<Rightarrow> pyval" where
  "first_key_only (PDict (kv # others)) = PDict [kv]"
| "first_key_only v = v"

text \<open>
  A source whose entries may map further keys: each entry is its first owner, that owner's
  repositories, and whatever other keys follow.
\<close>

definition keyed_source_value :: "(string \<times> string list \<times> (string \<times> pyval) list) list \<Rightarrow> pyval" where
  "keyed_source_value src =
     PDict [(''Owners'',
       PList (map (\<lambda>entry. PDict ((fst entry, PList (map PStr (fst (snd entry)))) # snd (snd entry)))
         src))]"

section \<open>Records and lines of the specification\<close>

text \<open>
  A RepoStatsRecord as the specification's data model has it (an identifier and seven integer
  counts), and the dictionary \<^verbatim>\<open>get_repo_data\<close> builds for it.
\<close>

record repo_stats =
  rs_repo :: string
  rs_forks :: int
  rs_stars :: int
  rs_watchers :: int
  rs_clones_total :: int
  rs_clones_unique :: int
  rs_views_total :: int
  rs_views_unique :: int

definition record_value :: "repo_stats \<Rightarrow> pyval" where
  "record_value r =
     PDict
       [(''Repo'', PStr (rs_repo r)),
        (''Forks'', PInt (rs_forks r)),
        (''Stars'', PInt (rs_stars r)),
        (''Watchers'', PInt (rs_watchers r)),
        (''Clones Total'', PInt (rs_clones_total r)),
        (''Clones Unique'', PInt (rs_clones_unique r)),
        (''Views Total'', PInt (rs_views_total r)),
        (''Views Unique'', PInt (rs_views_unique r))]"

text \<open>
  The lines of a text file: a line ends at \<^verbatim>\<open>\r\n\<close>, at \<^verbatim>\<open>\n\<close> or at \<^verbatim>\<open>\r\<close>, as when a file is
  read line by line.
\<close>

fun lines_from :: "string \<Rightarrow> string \<Rightarrow> string list" where
  "lines_from cur [] = (if cur = [] then [] else [cur])"
| "lines_from cur [c] = (if c = LF \<or> c = CR then [cur] else [cur @ [c]])"
| "lines_from cur (c # d # ds) =
     (if c = CR \<and> d = LF then cur # lines_from [] ds
      else if c = LF \<or> c = CR then cur # lines_from [] (d # ds)
      else lines_from (cur @ [c]) (d # ds))"

definition file_lines :: "string \<Rightarrow> string list" where
  "file_lines txt = lines_from [] txt"

text \<open>The row the specification expects for a record, without its line end.\<close>

definition csv_line :: "repo_stats \<Rightarrow> string" where
  "csv_line r =
     intercalate '',''
       [csv_field (rs_repo r), str_int (rs_forks r), str_int (rs_stars r), str_int (rs_watchers r),
        str_int (rs_clones_total r), str_int (rs_clones_unique r),
        str_int (rs_views_total r), str_int (rs_views_unique r)]"

definition header_line :: string where
  "header_line = ''Repo,Forks,Stars,Watchers,Clones Total,Clones Unique,Views Total,Views Unique''"

definition no_line_break :: "string \<Rightarrow> bool" where
  "no_line_break s = list_all (\<lambda>c. c \<noteq> CR \<and> c \<noteq> LF) s"

definition acme_stats :: "string \<Rightarrow> repo_stats" where
  "acme_stats name =
     \<lparr>rs_repo = name, rs_forks = 3, rs_stars = 10, rs_watchers = 10, rs_clones_total = 5,
      rs_clones_unique = 4, rs_views_total = 50, rs_views_unique = 20\<rparr>"

definition broken_stats :: repo_stats where
  "broken_stats =
     \<lparr>rs_repo = ''acme'' @ [LF] @ ''corp/widgets'', rs_forks = 3, rs_stars = 10, rs_watchers = 10,
      rs_clones_total = 5, rs_clones_unique = 4, rs_views_total = 50, rs_views_unique = 20\<rparr>"

text \<open>
  A world whose configuration file names the owner \<^verbatim>\<open>acme\ncorp\<close>, a name with a line feed,
  and whose API answers for its repository \<^verbatim>\<open>widgets\<close>.
\<close>

definition broken_source :: repo_source where
  "broken_source = [(''acme'' @ [LF] @ ''corp'', [''widgets''])]"

definition broken_http :: "request \<Rightarrow> error + pyval" where
  "broken_http rq =
     (let url = fst rq; base = ''https://api.github.com/repos/acme'' @ [LF] @ ''corp/widgets'' in
      if url = base then Inr acme_detail
      else if url = base @ ''/traffic/views'' then Inr acme_views
      else if url = base @ ''/traffic/clones'' then Inr acme_clones
      else Inl RequestError)"

definition broken_world :: world where
  "broken_world =
     \<lparr>http_get = broken_http,
      getenv = (\<lambda>name. None),
      yaml_load = (\<lambda>path. if path = ''repos.yml'' then Inr (source_value broken_source) else Inl OSError),
      can_open = (\<lambda>path. True),
      py_repr = (\<lambda>v. []),
      path_exists = (\<lambda>path. path = ''repos.yml'')\<rparr>"

section \<open>Reading a JSON document back\<close>

text \<open>
  The round trip of the specification parses the written file with \<^verbatim>\<open>json.loads\<close>. The
  parser below follows CPython's decoder on the values of the model: whitespace is space,
  tab, line feed and carriage return; a number is an optional minus sign and digits without
  a leading zero; a string may hold the escapes \<^verbatim>\<open>\" \\ \/ \b \f \n \r \t\<close> and \<^verbatim>\<open>\uXXXX\<close>, and
  no raw control character; a repeated key of an object keeps its first place and takes the
  last value. The result \<open>None\<close> stands for a document that \<^verbatim>\<open>json.loads\<close> rejects or whose
  value is outside the model (a float, a code point from 256 on). The recursion is bounded
  by fuel, and \<open>json_loads\<close> supplies more than any document of its length needs.
\<close>

definition is_ws :: "char \<Rightarrow> bool" where
  "is_ws c = (c = CHR '' '' \<or> c = CHR 0x09 \<or> c = LF \<or> c = CR)"

definition skip_ws :: "string \<Rightarrow> string" where
  "skip_ws s = dropWhile is_ws s"

definition is_digit :: "char \<Rightarrow> bool" where
  "is_digit c = (c \<in> set ''0123456789'')"

definition digit_val :: "char \<Rightarrow> nat" where
  "digit_val c = (of_char c :: nat) - 48"

definition digits_val :: "string \<Rightarrow> nat" where
  "digits_val ds = foldl (\<lambda>acc c. 10 * acc + digit_val c) 0 ds"

definition hex_val :: "char \<Rightarrow> nat option" where
  "hex_val c =
     (let n = (of_char c :: nat) in
      if 48 \<le> n \<and> n \<le> 57 then Some (n - 48)
      else if 97 \<le> n \<and> n \<le> 102 then Some (n - 87)
      else if 65 \<le> n \<and> n \<le> 70 then Some (n - 55)
      else None)"

definition hex4 :: "char \<Rightarrow> char \<Rightarrow> char \<Rightarrow> char \<Rightarrow> nat option" where
  "hex4 a b c d =
     (case (hex_val a, hex_val b, hex_val c, hex_val d) of
        (Some x, Some y, Some z, Some u) \<Rightarrow> Some (((x * 16 + y) * 16 + z) * 16 + u)
      | _ \<Rightarrow> None)"

definition unescape :: "char \<Rightarrow> char option" where
  "unescape e =
     (if e = DQUOTE then Some DQUOTE
      else if e = CHR 0x5C then Some (CHR 0x5C)
      else if e = CHR ''/'' then Some (CHR ''/'')
      else if e = CHR ''b'' then Some (CHR 0x08)
      else if e = CHR ''f'' then Some (CHR 0x0C)
      else if e = CHR ''n'' then Some (CHR 0x0A)
      else if e = CHR ''r'' then Some (CHR 0x0D)
      else if e = CHR ''t'' then Some (CHR 0x09)
      else None)"

fun scan_string :: "string \<Rightarrow> (string \<times> string) option" where
  "scan_string [] = None"
| "scan_string (c # cs) =
     (if c = DQUOTE then Some ([], cs)
      else if c = CHR 0x5C then
        (case cs of
           [] \<Rightarrow> None
         | e # es \<Rightarrow>
             if e = CHR ''u'' then
               (case es of
                  a # b # x # y # rest \<Rightarrow>
                    (case hex4 a b x y of
                       None \<Rightarrow> None
                     | Some n \<Rightarrow>
                         if n < 256
                         then (case scan_string rest of
                                 None \<Rightarrow> None
                               | Some (s, r) \<Rightarrow> Some (char_of n # s, r))
                         else None)
                | _ \<Rightarrow> None)
             else
               (case unescape e of
                  None \<Rightarrow> None
                | Some ch \<Rightarrow>
                    (case scan_string es of
                       None \<Rightarrow> None
                     | Some (s, r) \<Rightarrow> Some (ch # s, r))))
      else if (of_char c :: nat) < 32 then None
      else (case scan_string cs of None \<Rightarrow> None | Some (s, r) \<Rightarrow> Some (c # s, r)))"

definition scan_int :: "string \<Rightarrow> (pyval \<times> string) option" where
  "scan_int s =
     (let neg = (take 1 s = ''-'');
          body = (if neg then drop 1 s else s);
          ds = takeWhile is_digit body;
          rest = dropWhile is_digit body
      in if ds = [] then None
         else if take 1 ds = ''0'' \<and> 1 < length ds then None
         else if take 1 rest = ''.'' \<or> take 1 rest = ''e'' \<or> take 1 rest = ''E'' then None
         else Some (PInt (if neg then - int (digits_val ds) else int (digits_val ds)), rest))"

fun dict_insert :: "(string \<times> pyval) list \<Rightarrow> string \<Rightarrow> pyval \<Rightarrow> (string \<times> pyval) list" where
  "dict_insert [] k v = [(k, v)]"
| "dict_insert (kv # kvs) k v =
     (if fst kv = k then (k, v) # kvs else kv # dict_insert kvs k v)"

definition dict_of_pairs :: "(string \<times> pyval) list \<Rightarrow> (string \<times> pyval) list" where
  "dict_of_pairs pairs = foldl (\<lambda>d kv. dict_insert d (fst kv) (snd kv)) [] pairs"

fun scan_value :: "nat \<Rightarrow> string \<Rightarrow> (pyval \<times> string) option"
  and scan_items :: "nat \<Rightarrow> string \<Rightarrow> (pyval list \<times> string) option"
  and scan_pairs :: "nat \<Rightarrow> string \<Rightarrow> ((string \<times> pyval) list \<times> string) option"
where
  "scan_value 0 s = None"
| "scan_value (Suc n) s =
     (if take 1 s = [DQUOTE] then
        (case scan_string (drop 1 s) of None \<Rightarrow> None | Some (str, rest) \<Rightarrow> Some (PStr str, rest))
      else if take 1 s = ''{'' then
        (if take 1 (skip_ws (drop 1 s)) = ''}'' then Some (PDict [], drop 1 (skip_ws (drop 1 s)))
         else (case scan_pairs n (skip_ws (drop 1 s)) of
                 None \<Rightarrow> None
               | Some (pairs, rest) \<Rightarrow> Some (PDict (dict_of_pairs pairs), rest)))
      else if take 1 s = ''['' then
        (if take 1 (skip_ws (drop 1 s)) = '']'' then Some (PList [], drop 1 (skip_ws (drop 1 s)))
         else (case scan_items n (skip_ws (drop 1 s)) of
                 None \<Rightarrow> None
               | Some (items, rest) \<Rightarrow> Some (PList items, rest)))
      else if take 4 s = ''null'' then Some (PNone, drop 4 s)
      else if take 4 s = ''true'' then Some (PBool True, drop 4 s)
      else if take 5 s = ''false'' then Some (PBool False, drop 5 s)
      else scan_int s)"
| "scan_items 0 s = None"
| "scan_items (Suc n) s =
     (case scan_value n s of
        None \<Rightarrow> None
      | Some (v, rest) \<Rightarrow>
          (if take 1 (skip_ws rest) = '','' then
             (case scan_items n (skip_ws (drop 1 (skip_ws rest))) of
                None \<Rightarrow> None
              | Some (vs, rest') \<Rightarrow> Some (v # vs, rest'))
           else if take 1 (skip_ws rest) = '']'' then Some ([v], drop 1 (skip_ws rest))
           else None))"
| "scan_pairs 0 s = None"
| "scan_pairs (Suc n) s =
     (if take 1 s \<noteq> [DQUOTE] then None
      else
        (case scan_string (drop 1 s) of
           None \<Rightarrow> None
         | Some (k, rest) \<Rightarrow>
             (if take 1 (skip_ws rest) \<noteq> '':'' then None
              else
                (case scan_value n (skip_ws (drop 1 (skip_ws rest))) of
                   None \<Rightarrow> None
                 | Some (v, rest1) \<Rightarrow>
                     (if take 1 (skip_ws rest1) = '','' then
                        (case scan_pairs n (skip_ws (drop 1 (skip_ws rest1))) of
                           None \<Rightarrow> None
                         | Some (kvs, rest2) \<Rightarrow> Some ((k, v) # kvs, rest2))
                      else if take 1 (skip_ws rest1) = ''}'' then
                        Some ([(k, v)], drop 1 (skip_ws rest1))
                      else None)))))"

definition json_loads :: "string \<Rightarrow> pyval option" where
  "json_loads s =
     (case scan_value (Suc (length s)) (skip_ws s) of
        None \<Rightarrow> None
      | Some (v, rest) \<Rightarrow> if skip_ws rest = [] then Some v else None)"

text \<open>
  A Python value in which every dictionary has pairwise distinct keys, as every dictionary
  of a running program has.
\<close>

fun wf_value :: "pyval \<Rightarrow> bool"
  and wf_items :: "pyval list \<Rightarrow> bool"
  and wf_pairs :: "(string \<times> pyval) list \<Rightarrow> bool"
where
  "wf_value (PList xs) = wf_items xs"
| "wf_value (PDict kvs) = (distinct (map fst kvs) \<and> wf_pairs kvs)"
| "wf_value v = True"
| "wf_items [] = True"
| "wf_items (x # xs) = (wf_value x \<and> wf_items xs)"
| "wf_pairs [] = True"
| "wf_pairs (kv # kvs) = (wf_value (snd kv) \<and> wf_pairs kvs)"

section \<open>Further notions used in the proofs\<close>

text \<open>The fuel the parser needs for a value: one unit for each value and each list position.\<close>

fun nodes :: "pyval \<Rightarrow> nat"
  and nodes_items :: "pyval list \<Rightarrow> nat"
  and nodes_pairs :: "(string \<times> pyval) list \<Rightarrow> nat"
where
  "nodes (PList xs) = Suc (nodes_items xs)"
| "nodes (PDict kvs) = Suc (nodes_pairs kvs)"
| "nodes v = 1"
| "nodes_items [] = 0"
| "nodes_items (x # xs) = Suc (nodes x + nodes_items xs)"
| "nodes_pairs [] = 0"
| "nodes_pairs (kv # kvs) = Suc (nodes (snd kv) + nodes_pairs kvs)"

text \<open>A text that starts like a JSON value, and a text that may follow a number.\<close>

definition value_start :: "string \<Rightarrow> bool" where
  "value_start s =
     (case s of
        [] \<Rightarrow> False
      | c # cs \<Rightarrow> \<not> is_ws c \<and> c \<noteq> CHR '']'' \<and> c \<noteq> CHR ''}'' \<and> c \<noteq> CHR '','' \<and> c \<noteq> CHR '':'')"

definition follow_ok :: "string \<Rightarrow> bool" where
  "follow_ok rest = (case rest of [] \<Rightarrow> True | c # cs \<Rightarrow> c = CHR '','' \<or> c = LF)"

section \<open>The stats fetcher\<close>

text \<open>
  Claim C2. For every owner and repository name, when the detail endpoint answers with an
  object holding \<^verbatim>\<open>forks_count\<close>, \<^verbatim>\<open>stargazers_count\<close> and \<^verbatim>\<open>watchers_count\<close>, and the views
  and clones endpoints each answer with an object holding \<^verbatim>\<open>count\<close> and \<^verbatim>\<open>uniques\<close>, the
  fetcher returns the record whose \<^verbatim>\<open>Repo\<close> is \<^verbatim>\<open>owner/repo\<close>, whose \<^verbatim>\<open>Forks\<close>, \<^verbatim>\<open>Stars\<close> and
  \<^verbatim>\<open>Watchers\<close> are the three detail values, whose \<^verbatim>\<open>Clones\<close> fields are the clones values and
  whose \<^verbatim>\<open>Views\<close> fields are the views values, in that field order.
\<close>

theorem get_repo_data_record:
  assumes "http_get w (''https://api.github.com/repos/'' @ owner @ ''/'' @ repo, h) = Inr (PDict detail)"
    and "http_get w (''https://api.github.com/repos/'' @ owner @ ''/'' @ repo @ ''/traffic/views'', h) =
           Inr (PDict views)"
    and "http_get w (''https://api.github.com/repos/'' @ owner @ ''/'' @ repo @ ''/traffic/clones'', h) =
           Inr (PDict clones)"
    and "map_of detail ''forks_count'' = Some forks"
    and "map_of detail ''stargazers_count'' = Some stars"
    and "map_of detail ''watchers_count'' = Some watchers"
    and "map_of views ''count'' = Some views_total"
    and "map_of views ''uniques'' = Some views_unique"
    and "map_of clones ''count'' = Some clones_total"
    and "map_of clones ''uniques'' = Some clones_unique"
  shows "fst (get_repo_data w h (PStr owner) (PStr repo) s) =
     Inr (PDict
       [(''Repo'', PStr (owner @ ''/'' @ repo)),
        (''Forks'', forks),
        (''Stars'', stars),
        (''Watchers'', watchers),
        (''Clones Total'', clones_total),
        (''Clones Unique'', clones_unique),
        (''Views Total'', views_total),
        (''Views Unique'', views_unique)])"
  using assms
  by (simp add: get_repo_data_def request_json_def repo_url_def py_str_def build_record_def
      subscript_str_def py_getitem_def)

text \<open>The example of the specification: \<^verbatim>\<open>acme/widgets\<close>.\<close>

theorem get_repo_data_record_witness:
  "fst (get_repo_data acme_world [(''Authorization'', ''token t'')] (PStr ''acme'') (PStr ''widgets'')
          empty_state) =
     Inr (PDict
       [(''Repo'', PStr ''acme/widgets''),
        (''Forks'', PInt 3),
        (''Stars'', PInt 10),
        (''Watchers'', PInt 10),
        (''Clones Total'', PInt 5),
        (''Clones Unique'', PInt 4),
        (''Views Total'', PInt 50),
        (''Views Unique'', PInt 20)])"
  using get_repo_data_record [of acme_world "''acme''" "''widgets''" "[(''Authorization'', ''token t'')]"
      "[(''forks_count'', PInt 3), (''stargazers_count'', PInt 10), (''watchers_count'', PInt 10)]"
      "[(''count'', PInt 50), (''uniques'', PInt 20)]"
      "[(''count'', PInt 5), (''uniques'', PInt 4)]"
      "PInt 3" "PInt 10" "PInt 10" "PInt 50" "PInt 20" "PInt 5" "PInt 4" empty_state]
  by (simp add: acme_world_def acme_http_def acme_detail_def acme_views_def acme_clones_def)

section \<open>The fetch loop\<close>

lemma fetch_repos_each_pair:
  "fetch_repos w h (PStr owner) (map PStr repos) acc s =
     fetch_each_pair w h (map (\<lambda>repo. (owner, repo)) repos) acc s"
  by (induction repos arbitrary: acc s) (auto split: prod.splits sum.splits)

lemma fetch_each_pair_append:
  "fetch_each_pair w h (ps @ qs) acc s =
     (case fetch_each_pair w h ps acc s of
        (Inl e, s1) \<Rightarrow> (Inl e, s1)
      | (Inr acc1, s1) \<Rightarrow> fetch_each_pair w h qs acc1 s1)"
  by (induction ps arbitrary: acc s) (auto split: prod.splits sum.splits)

lemma fetch_owners_each_pair:
  "fetch_owners w h (map (\<lambda>entry. PDict [(fst entry, PList (map PStr (snd entry)))]) src) acc s =
     fetch_each_pair w h (source_pairs src) acc s"
proof (induction src arbitrary: acc s)
  case Nil
  show ?case by (simp add: source_pairs_def)
next
  case (Cons entry src)
  have step: "source_pairs (entry # src) = map (\<lambda>repo. (fst entry, repo)) (snd entry) @ source_pairs src"
    by (simp add: source_pairs_def)
  show ?case
    unfolding step fetch_each_pair_append
    by (simp add: py_next_iter_def py_iter_def py_getitem_def fetch_repos_each_pair Cons.IH
        split: prod.splits sum.splits)
qed

lemma fetch_all_each_pair:
  "fetch_all w h (source_value src) s = fetch_each_pair w h (source_pairs src) [] s"
  by (simp add: fetch_all_def source_value_def subscript_str_def py_getitem_def py_iter_def
      fetch_owners_each_pair)

lemma get_repo_data_success:
  assumes "get_repo_data w h (PStr owner) (PStr repo) s = (Inr d, s')"
  shows "s' = s\<lparr>reqs := reqs s @ pair_requests h (owner, repo)\<rparr>"
    and "subscript_str d ''Repo'' = Inr (PStr (owner @ ''/'' @ repo))"
  using assms
  by (auto simp: get_repo_data_def request_json_def repo_url_def py_str_def pair_requests_def
      build_record_def subscript_str_def py_getitem_def
      split: prod.splits sum.splits)

lemma fetch_each_pair_success:
  "fetch_each_pair w h ps acc s = (Inr final_data, s') \<Longrightarrow>
     (\<exists>ds. final_data = acc @ ds \<and> length ds = length ps \<and>
        map (\<lambda>d. subscript_str d ''Repo'') ds = map (\<lambda>p. Inr (PStr (fst p @ ''/'' @ snd p))) ps) \<and>
     s' = s\<lparr>reqs := reqs s @ concat (map (pair_requests h) ps)\<rparr>"
proof (induction ps arbitrary: acc s)
  case Nil
  then show ?case by simp
next
  case (Cons p ps)
  from Cons.prems obtain d s1 where
    d: "get_repo_data w h (PStr (fst p)) (PStr (snd p)) s = (Inr d, s1)"
    and rest: "fetch_each_pair w h ps (acc @ [d]) s1 = (Inr final_data, s')"
    by (auto split: prod.splits sum.splits)
  from get_repo_data_success [OF d]
  have s1: "s1 = s\<lparr>reqs := reqs s @ pair_requests h p\<rparr>"
    and repo: "subscript_str d ''Repo'' = Inr (PStr (fst p @ ''/'' @ snd p))"
    by simp_all
  from Cons.IH [OF rest] obtain ds where
    ds: "final_data = (acc @ [d]) @ ds" "length ds = length ps"
      "map (\<lambda>d. subscript_str d ''Repo'') ds = map (\<lambda>p. Inr (PStr (fst p @ ''/'' @ snd p))) ps"
    and s': "s' = s1\<lparr>reqs := reqs s1 @ concat (map (pair_requests h) ps)\<rparr>"
    by blast
  have "final_data = acc @ (d # ds)" using ds(1) by simp
  moreover have "length (d # ds) = length (p # ps)" using ds(2) by simp
  moreover have "map (\<lambda>d. subscript_str d ''Repo'') (d # ds) =
      map (\<lambda>p. Inr (PStr (fst p @ ''/'' @ snd p))) (p # ps)"
    using ds(3) repo by simp
  moreover have "s' = s\<lparr>reqs := reqs s @ concat (map (pair_requests h) (p # ps))\<rparr>"
    using s' s1 by simp
  ultimately show ?case by blast
qed

text \<open>
  Claim C3. For every resolved RepoSource with N (owner, repo) pairs, the fetch loop is the
  stats fetcher called once per pair in the order of the source; when it completes, it has
  made exactly the N calls (the three requests of each pair, in order, and nothing else) and
  returns N records, the i-th being the record of the i-th pair.
\<close>

theorem fetch_loop_once_per_pair:
  assumes "fetch_all w h (source_value src) s = (Inr final_data, s')"
  shows "fetch_all w h (source_value src) s = fetch_each_pair w h (source_pairs src) [] s \<and>
     length final_data = length (source_pairs src) \<and>
     map (\<lambda>d. subscript_str d ''Repo'') final_data =
       map (\<lambda>p. Inr (PStr (fst p @ ''/'' @ snd p))) (source_pairs src) \<and>
     reqs s' = reqs s @ concat (map (pair_requests h) (source_pairs src))"
proof -
  have eq: "fetch_all w h (source_value src) s = fetch_each_pair w h (source_pairs src) [] s"
    by (rule fetch_all_each_pair)
  with assms have "fetch_each_pair w h (source_pairs src) [] s = (Inr final_data, s')"
    by simp
  from fetch_each_pair_success [OF this] eq show ?thesis
    by auto
qed

lemma acme_fetch_all:
  "fetch_all acme_world [] (source_value acme_source) empty_state =
     (Inr [acme_record ''acme/widgets'', acme_record ''acme/gadgets''],
      \<lparr>reqs = pair_requests [] (''acme'', ''widgets'') @ pair_requests [] (''acme'', ''gadgets''),
       files = (\<lambda>path. None), console = []\<rparr>)"
  by (simp add: fetch_all_def source_value_def acme_source_def subscript_str_def py_getitem_def
      py_iter_def py_next_iter_def get_repo_data_def request_json_def repo_url_def py_str_def
      build_record_def acme_world_def acme_http_def acme_detail_def acme_views_def
      acme_clones_def acme_record_def empty_state_def pair_requests_def)

theorem fetch_loop_once_per_pair_witness:
  "length [acme_record ''acme/widgets'', acme_record ''acme/gadgets''] = length (source_pairs acme_source) \<and>
   source_pairs acme_source = [(''acme'', ''widgets''), (''acme'', ''gadgets'')] \<and>
   fetch_all acme_world [] (source_value acme_source) empty_state =
     fetch_each_pair acme_world [] (source_pairs acme_source) [] empty_state \<and>
   length (reqs (snd (fetch_all acme_world [] (source_value acme_source) empty_state))) = 6"
  using fetch_loop_once_per_pair [OF acme_fetch_all] acme_fetch_all
  by (simp add: source_pairs_def acme_source_def pair_requests_def)

lemma fetch_owners_first_key:
  "fetch_owners w h (map first_key_only entries) acc s = fetch_owners w h entries acc s"
proof (induction entries arbitrary: acc s)
  case Nil
  show ?case by simp
next
  case (Cons entry entries)
  have key: "py_next_iter (first_key_only entry) = py_next_iter entry"
    by (cases entry rule: first_key_only.cases) (simp_all add: py_next_iter_def py_iter_def)
  have item: "py_next_iter entry = Inr k \<Longrightarrow>
      py_getitem (first_key_only entry) k = py_getitem entry k" for k
    by (cases entry rule: first_key_only.cases)
      (auto simp: py_next_iter_def py_iter_def py_getitem_def)
  show ?case
    by (simp add: key item Cons.IH split: sum.splits prod.splits)
qed

lemma acme_fetch_widgets:
  "fetch_each_pair acme_world [] [(''acme'', ''widgets'')] [] empty_state =
     (Inr [acme_record ''acme/widgets''],
      \<lparr>reqs = pair_requests [] (''acme'', ''widgets''), files = (\<lambda>path. None), console = []\<rparr>)"
  by (simp add: subscript_str_def py_getitem_def
      get_repo_data_def request_json_def repo_url_def py_str_def
      build_record_def acme_world_def acme_http_def acme_detail_def acme_views_def
      acme_clones_def acme_record_def empty_state_def pair_requests_def)

text \<open>
  Claim C10. For every entry of the \<^verbatim>\<open>Owners\<close> list only the repositories under the entry's
  first key are fetched: the loop runs as if every entry had been cut down to its first key,
  and for entries that map further keys the loop is the fetcher called on the pairs of the
  first keys alone; what stands under the other keys is skipped and raises nothing.
\<close>

theorem first_key_only_consumed:
  "fetch_all w h (PDict [(''Owners'', PList entries)]) s =
     fetch_all w h (PDict [(''Owners'', PList (map first_key_only entries))]) s \<and>
   fetch_all w h (keyed_source_value src) s =
     fetch_each_pair w h (source_pairs (map (\<lambda>entry. (fst entry, fst (snd entry))) src)) [] s"
proof -
  have a: "fetch_all w h (PDict [(''Owners'', PList entries)]) s =
     fetch_all w h (PDict [(''Owners'', PList (map first_key_only entries))]) s" for entries
    by (simp add: fetch_all_def subscript_str_def py_getitem_def py_iter_def fetch_owners_first_key)
  have "fetch_all w h (keyed_source_value src) s =
      fetch_all w h (source_value (map (\<lambda>entry. (fst entry, fst (snd entry))) src)) s"
    unfolding keyed_source_value_def source_value_def
    by (subst a) (simp add: comp_def)
  with a [of entries] show ?thesis
    by (simp add: fetch_all_each_pair)
qed

theorem first_key_only_consumed_witness:
  "keyed_source_value two_key_source =
     PDict [(''Owners'',
       PList [PDict [(''acme'', PList [PStr ''widgets'']), (''umbrella'', PList [PStr ''rain''])]])] \<and>
   fetch_all acme_world [] (keyed_source_value two_key_source) empty_state =
     (Inr [acme_record ''acme/widgets''],
      \<lparr>reqs = pair_requests [] (''acme'', ''widgets''), files = (\<lambda>path. None), console = []\<rparr>)"
proof -
  have pairs: "source_pairs (map (\<lambda>entry. (fst entry, fst (snd entry))) two_key_source) =
      [(''acme'', ''widgets'')]"
    by (simp add: two_key_source_def source_pairs_def)
  have "fetch_all acme_world [] (keyed_source_value two_key_source) empty_state =
      fetch_each_pair acme_world [] [(''acme'', ''widgets'')] [] empty_state"
    using first_key_only_consumed [of acme_world "[]" "[]" empty_state two_key_source]
    by (simp only: pairs)
  then show ?thesis
    by (simp only: acme_fetch_widgets) (simp add: keyed_source_value_def two_key_source_def)
qed

section \<open>The requests of a run\<close>

lemma issues_refl: "issues h s s"
  unfolding issues_def by (rule exI [of _ "[]"]) simp

lemma issues_append: "list_all (\<lambda>rq. snd rq = h) new \<Longrightarrow> issues h s (s\<lparr>reqs := reqs s @ new\<rparr>)"
  unfolding issues_def by blast

lemma issues_trans: "issues h s s1 \<Longrightarrow> issues h s1 s2 \<Longrightarrow> issues h s s2"
  unfolding issues_def
proof -
  assume "\<exists>new. s1 = s\<lparr>reqs := reqs s @ new\<rparr> \<and> list_all (\<lambda>rq. snd rq = h) new"
    and "\<exists>new. s2 = s1\<lparr>reqs := reqs s1 @ new\<rparr> \<and> list_all (\<lambda>rq. snd rq = h) new"
  then obtain m1 m2 where
    m1: "s1 = s\<lparr>reqs := reqs s @ m1\<rparr>" "list_all (\<lambda>rq. snd rq = h) m1"
    and m2: "s2 = s1\<lparr>reqs := reqs s1 @ m2\<rparr>" "list_all (\<lambda>rq. snd rq = h) m2"
    by blast
  have "s2 = s\<lparr>reqs := reqs s @ (m1 @ m2)\<rparr>" using m1(1) m2(1) by simp
  moreover have "list_all (\<lambda>rq. snd rq = h) (m1 @ m2)" using m1(2) m2(2) by simp
  ultimately show "\<exists>new. s2 = s\<lparr>reqs := reqs s @ new\<rparr> \<and> list_all (\<lambda>rq. snd rq = h) new"
    by blast
qed

lemma issues_files: "issues h s s' \<Longrightarrow> files s' = files s"
  unfolding issues_def by auto

lemma issues_reqs:
  "issues h s s' \<Longrightarrow> \<exists>new. reqs s' = reqs s @ new \<and> list_all (\<lambda>rq. snd rq = h) new"
  unfolding issues_def by auto

lemma get_repo_data_issues: "issues h s (snd (get_repo_data w h owner repo s))"
  by (auto simp: get_repo_data_def request_json_def split: sum.splits intro!: issues_append)

lemma fetch_repos_issues: "issues h s (snd (fetch_repos w h key repos acc s))"
proof (induction repos arbitrary: acc s)
  case Nil
  show ?case by (simp add: issues_refl)
next
  case (Cons repo repos)
  have step: "issues h s (snd (get_repo_data w h key repo s))"
    by (rule get_repo_data_issues)
  show ?case
  proof (cases "get_repo_data w h key repo s")
    case (Pair r s1)
    with step have s1: "issues h s s1" by simp
    show ?thesis
    proof (cases r)
      case (Inl e)
      with Pair s1 show ?thesis by simp
    next
      case (Inr d)
      with Pair have "snd (fetch_repos w h key (repo # repos) acc s) =
          snd (fetch_repos w h key repos (acc @ [d]) s1)"
        by simp
      with issues_trans [OF s1 Cons.IH [where acc = "acc @ [d]" and s = s1]] show ?thesis by simp
    qed
  qed
qed

lemma fetch_owners_issues: "issues h s (snd (fetch_owners w h entries acc s))"
proof (induction entries arbitrary: acc s)
  case Nil
  show ?case by (simp add: issues_refl)
next
  case (Cons entry entries)
  show ?case
  proof (cases "py_next_iter entry")
    case (Inl e)
    then show ?thesis by (simp add: issues_refl)
  next
    case key: (Inr key)
    show ?thesis
    proof (cases "py_getitem entry key")
      case (Inl e)
      with key show ?thesis by (simp add: issues_refl)
    next
      case v: (Inr v)
      show ?thesis
      proof (cases "py_iter v")
        case (Inl e)
        with key v show ?thesis by (simp add: issues_refl)
      next
        case repos: (Inr repos)
        have inner: "issues h s (snd (fetch_repos w h key repos acc s))"
          by (rule fetch_repos_issues)
        show ?thesis
        proof (cases "fetch_repos w h key repos acc s")
          case (Pair r s1)
          with inner have s1: "issues h s s1" by simp
          show ?thesis
          proof (cases r)
            case (Inl e)
            with key v repos Pair s1 show ?thesis by simp
          next
            case (Inr acc1)
            with key v repos Pair
            have "snd (fetch_owners w h (entry # entries) acc s) =
                snd (fetch_owners w h entries acc1 s1)"
              by simp
            with issues_trans [OF s1 Cons.IH [where acc = acc1 and s = s1]] show ?thesis by simp
          qed
        qed
      qed
    qed
  qed
qed

lemma fetch_all_issues: "issues h s (snd (fetch_all w h repos_dict s))"
  by (simp add: fetch_all_def issues_refl fetch_owners_issues split: sum.splits)

lemma list_repos_state:
  "snd (list_repos w h kind name s) = s\<lparr>reqs := reqs s @ [(listing_url kind name, h)]\<rparr>"
  by (simp add: list_repos_def request_json_def split: sum.splits)

lemma resolve_source_state:
  "snd (resolve_source w h repos org user s) =
     (if truthy repos then s
      else if truthy org
      then s\<lparr>reqs := reqs s @ [(listing_url ''orgs'' (case org of Some n \<Rightarrow> n | None \<Rightarrow> []), h)]\<rparr>
      else if truthy user
      then s\<lparr>reqs := reqs s @ [(listing_url ''users'' (case user of Some n \<Rightarrow> n | None \<Rightarrow> []), h)]\<rparr>
      else s)"
proof -
  have keep: "\<And>p. snd (case p of (Inl e, s1) \<Rightarrow> (Inl e, s1) | (Inr d, s1) \<Rightarrow> (Inr (Some d), s1)) =
      snd (p :: (error + pyval) \<times> run_state)"
    by (auto split: prod.splits sum.splits)
  show ?thesis
    unfolding resolve_source_def
    by (simp add: keep list_repos_state split: sum.splits)
qed

lemma resolve_source_issues: "issues h s (snd (resolve_source w h repos org user s))"
  unfolding resolve_source_state
  by (auto simp: issues_refl intro!: issues_append)

lemma fetch_stage_issues:
  "issues (resolve_headers w auth_token) s (snd (fetch_stage w repos org user auth_token s))"
proof -
  let ?h = "resolve_headers w auth_token"
  have r: "issues ?h s (snd (resolve_source w ?h repos org user s))"
    by (rule resolve_source_issues)
  show ?thesis
  proof (cases "resolve_source w ?h repos org user s")
    case (Pair res s1)
    with r have s1: "issues ?h s s1" by simp
    show ?thesis
    proof (cases res)
      case (Inl e)
      with Pair s1 show ?thesis by (simp add: fetch_stage_def)
    next
      case (Inr src)
      show ?thesis
      proof (cases src)
        case None
        with Inr Pair s1 show ?thesis by (simp add: fetch_stage_def)
      next
        case (Some d)
        with Inr Pair have "snd (fetch_stage w repos org user auth_token s) =
            snd (fetch_all w ?h d s1)"
          by (simp add: fetch_stage_def)
        with issues_trans [OF s1 fetch_all_issues [of ?h s1 w d]] show ?thesis by simp
      qed
    qed
  qed
qed

lemma emit_output_reqs: "reqs (snd (emit_output w output_file final_data s)) = reqs s"
  by (simp add: emit_output_def Let_def print_line_def write_file_def
      split: sum.splits prod.splits option.splits)

lemma main_reqs:
  "reqs (snd (main w repos org user output_file auth_token s)) =
     reqs (snd (fetch_stage w repos org user auth_token s))"
  by (simp add: main_def emit_output_reqs split: sum.splits prod.splits)

section \<open>The token\<close>




lemma fetch_stage_first_request:
  assumes "\<not> truthy repos" and "truthy org \<or> truthy user"
  shows "\<exists>new. reqs (snd (fetch_stage w repos org user auth_token s)) =
     reqs s @ (if truthy org then listing_url ''orgs'' (case org of Some n \<Rightarrow> n | None \<Rightarrow> [])
               else listing_url ''users'' (case user of Some n \<Rightarrow> n | None \<Rightarrow> []),
               resolve_headers w auth_token) # new"
proof -
  let ?h = "resolve_headers w auth_token"
  let ?rq = "(if truthy org then listing_url ''orgs'' (case org of Some n \<Rightarrow> n | None \<Rightarrow> [])
               else listing_url ''users'' (case user of Some n \<Rightarrow> n | None \<Rightarrow> []), ?h)"
  obtain res s1 where r: "resolve_source w ?h repos org user s = (res, s1)"
    by (cases "resolve_source w ?h repos org user s")
  have "snd (resolve_source w ?h repos org user s) = s\<lparr>reqs := reqs s @ [?rq]\<rparr>"
    using assms by (auto simp: resolve_source_state)
  with r have s1: "s1 = s\<lparr>reqs := reqs s @ [?rq]\<rparr>" by simp
  show ?thesis
  proof (cases res)
    case (Inl e)
    with r s1 have "reqs (snd (fetch_stage w repos org user auth_token s)) = reqs s @ ?rq # []"
      by (simp add: fetch_stage_def)
    then show ?thesis by blast
  next
    case (Inr src)
    show ?thesis
    proof (cases src)
      case None
      with Inr r s1 have "reqs (snd (fetch_stage w repos org user auth_token s)) = reqs s @ ?rq # []"
        by (simp add: fetch_stage_def)
      then show ?thesis by blast
    next
      case (Some d)
      with Inr r have eq: "snd (fetch_stage w repos org user auth_token s) = snd (fetch_all w ?h d s1)"
        by (simp add: fetch_stage_def)
      from issues_reqs [OF fetch_all_issues [of ?h s1 w d]] obtain new where
        "reqs (snd (fetch_all w ?h d s1)) = reqs s1 @ new"
        by blast
      with eq s1 have "reqs (snd (fetch_stage w repos org user auth_token s)) = reqs s @ ?rq # new"
        by simp
      then show ?thesis by blast
    qed
  qed
qed




section \<open>The repository source\<close>

text \<open>
  The command and its body agree on every run that click lets through: a run with no
  \<^verbatim>\<open>--repos\<close>, or with a \<^verbatim>\<open>--repos\<close> path that exists. In a run of the command the body therefore
  sees a \<^verbatim>\<open>repos\<close> that is falsy only when \<^verbatim>\<open>--repos\<close> is absent.
\<close>

lemma gh_stats_body:
  "gh_stats w None org user output_file auth_token s = main w None org user output_file auth_token s"
  "p \<noteq> [] \<Longrightarrow> path_exists w p \<Longrightarrow>
     gh_stats w (Some p) org user output_file auth_token s =
       main w (Some p) org user output_file auth_token s"
  by (simp_all add: gh_stats_def)





lemma rstrip_split: "t = rev (dropWhile p (rev t)) @ rev (takeWhile p (rev t))"
proof -
  have "rev (dropWhile p (rev t)) @ rev (takeWhile p (rev t)) =
      rev (takeWhile p (rev t) @ dropWhile p (rev t))"
    by (simp only: rev_append)
  also have "\<dots> = rev (rev t)"
    by (simp only: takeWhile_dropWhile_id)
  finally show ?thesis by simp
qed

lemma list_all_takeWhile: "list_all p (takeWhile p xs)"
  by (induction xs) simp_all

lemma strip_chars_decomp:
  "\<exists>pre post. s = pre @ strip_chars p s @ post \<and> list_all p pre \<and> list_all p post"
proof -
  define t where "t = dropWhile p s"
  have "s = takeWhile p s @ t"
    unfolding t_def by simp
  moreover have "t = strip_chars p s @ rev (takeWhile p (rev t))"
    unfolding strip_chars_def t_def [symmetric] by (rule rstrip_split)
  ultimately have "s = takeWhile p s @ strip_chars p s @ rev (takeWhile p (rev t))"
    by simp
  moreover have "list_all p (takeWhile p s)"
    by (rule list_all_takeWhile)
  moreover have "list_all p (rev (takeWhile p (rev t)))"
    using list_all_takeWhile [of p "rev t"] by (simp add: list_all_iff)
  ultimately show ?thesis by blast
qed

lemma strip_chars_ends:
  assumes "strip_chars p s \<noteq> []"
  shows "\<not> p (hd (strip_chars p s))" and "\<not> p (last (strip_chars p s))"
proof -
  define t where "t = dropWhile p s"
  define u where "u = dropWhile p (rev t)"
  have strip: "strip_chars p s = rev u"
    by (simp add: strip_chars_def t_def u_def)
  with assms have u: "u \<noteq> []" by simp
  then have "\<not> p (hd u)"
    unfolding u_def by (rule hd_dropWhile)
  moreover have "last (rev u) = hd u"
    using u by (simp add: last_rev)
  ultimately show "\<not> p (last (strip_chars p s))"
    by (simp add: strip)
  have split: "t = rev u @ rev (takeWhile p (rev t))"
    unfolding u_def by (rule rstrip_split)
  with u have t: "t \<noteq> []" by auto
  then have "\<not> p (hd t)"
    unfolding t_def by (rule hd_dropWhile)
  moreover have "hd t = hd (rev u)"
    using split u by (metis hd_append2 rev_is_Nil_conv)
  ultimately show "\<not> p (hd (strip_chars p s))"
    by (simp add: strip)
qed

lemma strip_example:
  "py_strip ''/ acme /'' = ''/ acme /''" "py_strip_slash ''/ acme /'' = '' acme ''"
  "py_strip '' /acme/ '' = ''/acme/''" "py_strip_slash ''/acme/'' = ''acme''"
  by (simp_all add: py_strip_def py_strip_slash_def strip_chars_def py_isspace_def)

text \<open>
  Claim C8, as amended. For every organization or user name the owner in the listing URL is
  the name with its leading and trailing whitespace removed and then, from that result, its
  leading and trailing slashes removed: the name is whitespace, the stripped name, whitespace;
  the stripped name neither starts nor ends with whitespace and is slashes, the owner,
  slashes; and the owner neither starts nor ends with a slash. Whitespace that stands inside
  the outer slashes stays.
\<close>

theorem listing_owner_stripped:
  assumes "\<not> truthy repos" and "name \<noteq> []"
  shows "\<exists>owner ws1 ws2 sl1 sl2.
     (\<exists>new. reqs (snd (main w repos (Some name) user output_file auth_token s)) =
        reqs s @ (''https://api.github.com/orgs/'' @ owner @ ''/repos'', resolve_headers w auth_token) # new) \<and>
     (\<exists>new. reqs (snd (main w repos None (Some name) output_file auth_token s)) =
        reqs s @ (''https://api.github.com/users/'' @ owner @ ''/repos'', resolve_headers w auth_token) # new) \<and>
     owner = py_strip_slash (py_strip name) \<and>
     name = ws1 @ py_strip name @ ws2 \<and> list_all py_isspace (ws1 @ ws2) \<and>
     (py_strip name = [] \<or>
        \<not> (py_isspace (hd (py_strip name)) \<or> py_isspace (last (py_strip name)))) \<and>
     py_strip name = sl1 @ owner @ sl2 \<and> list_all (\<lambda>c. c = CHR ''/'') (sl1 @ sl2) \<and>
     (owner = [] \<or> \<not> (hd owner = CHR ''/'' \<or> last owner = CHR ''/''))"
proof -
  let ?owner = "py_strip_slash (py_strip name)"
  let ?h = "resolve_headers w auth_token"
  from assms have t: "truthy (Some name)" by (simp add: truthy_def)
  have org: "\<exists>new. reqs (snd (main w repos (Some name) user output_file auth_token s)) =
        reqs s @ (''https://api.github.com/orgs/'' @ ?owner @ ''/repos'', ?h) # new"
    using fetch_stage_first_request [of repos "Some name" user w auth_token s] assms(1) t
    by (simp add: main_reqs listing_url_def owner_of_def)
  have usr: "\<exists>new. reqs (snd (main w repos None (Some name) output_file auth_token s)) =
        reqs s @ (''https://api.github.com/users/'' @ ?owner @ ''/repos'', ?h) # new"
    using fetch_stage_first_request [of repos None "Some name" w auth_token s] assms(1) t
    by (simp add: main_reqs listing_url_def owner_of_def truthy_def)
  obtain ws1 ws2 where ws: "name = ws1 @ py_strip name @ ws2" "list_all py_isspace ws1"
      "list_all py_isspace ws2"
    using strip_chars_decomp [of name py_isspace] unfolding py_strip_def by blast
  obtain sl1 sl2 where sl: "py_strip name = sl1 @ ?owner @ sl2" "list_all (\<lambda>c. c = CHR ''/'') sl1"
      "list_all (\<lambda>c. c = CHR ''/'') sl2"
    using strip_chars_decomp [of "py_strip name" "\<lambda>c. c = CHR ''/''"] unfolding py_strip_slash_def
    by blast
  have e1: "py_strip name = [] \<or>
      \<not> (py_isspace (hd (py_strip name)) \<or> py_isspace (last (py_strip name)))"
    using strip_chars_ends [of py_isspace name] unfolding py_strip_def by blast
  have e2: "?owner = [] \<or> \<not> (hd ?owner = CHR ''/'' \<or> last ?owner = CHR ''/'')"
    using strip_chars_ends [of "\<lambda>c. c = CHR ''/''" "py_strip name"] unfolding py_strip_slash_def
    by blast
  from org usr ws sl e1 e2 show ?thesis
    by (intro exI [of _ ?owner] exI [of _ ws1] exI [of _ ws2] exI [of _ sl1] exI [of _ sl2]) simp
qed

theorem listing_owner_stripped_witness:
  "hd (reqs (snd (main acme_world None (Some '' /acme/ '') None None None empty_state))) =
     (''https://api.github.com/orgs/acme/repos'', [(''Authorization'', ''token None'')])"
proof -
  have a: "\<not> truthy None" by (simp add: truthy_def)
  have b: "'' /acme/ '' \<noteq> []" by simp
  from listing_owner_stripped [OF a b, of acme_world None None None empty_state]
  show ?thesis
    by (auto simp: strip_example empty_state_def resolve_headers_def truthy_def acme_world_def)
qed

text \<open>
  The claim as first stated fails: \<^verbatim>\<open>"/ acme /"\<close> has no outer whitespace, so only the slashes
  go, and the request is for the owner \<^verbatim>\<open>" acme "\<close>, not \<^verbatim>\<open>"acme"\<close>.
\<close>

theorem listing_owner_counterexample:
  "owner_of ''/ acme /'' = '' acme '' \<and>
   owner_of ''/ acme /'' \<noteq> ''acme'' \<and>
   strip_chars (\<lambda>c. py_isspace c \<or> c = CHR ''/'') ''/ acme /'' = ''acme'' \<and>
   reqs (snd (main acme_world None (Some ''/ acme /'') None None None empty_state)) =
     [(''https://api.github.com/orgs/ acme /repos'', [(''Authorization'', ''token None'')])]"
  by (simp add: owner_of_def strip_example strip_chars_def py_isspace_def main_def fetch_stage_def
      resolve_source_def list_repos_def listing_url_def request_json_def truthy_def Let_def
      resolve_headers_def acme_world_def acme_http_def empty_state_def)

section \<open>The output\<close>

lemma fetch_stage_files: "files (snd (fetch_stage w repos org user auth_token s)) = files s"
  by (rule issues_files [OF fetch_stage_issues])

lemma acme_fetch_stage:
  "fetch_stage acme_world (Some ''repos.yml'') None None None empty_state =
     (Inr [acme_record ''acme/widgets'', acme_record ''acme/gadgets''],
      \<lparr>reqs = pair_requests [(''Authorization'', ''token None'')] (''acme'', ''widgets'')
          @ pair_requests [(''Authorization'', ''token None'')] (''acme'', ''gadgets''),
       files = (\<lambda>path. None), console = []\<rparr>)"
  by (simp add: fetch_stage_def Let_def resolve_headers_def resolve_source_def truthy_def
      fetch_all_def source_value_def acme_source_def subscript_str_def py_getitem_def
      py_iter_def py_next_iter_def get_repo_data_def request_json_def repo_url_def py_str_def
      build_record_def acme_world_def acme_http_def acme_detail_def acme_views_def
      acme_clones_def acme_record_def empty_state_def pair_requests_def)

lemma suffix_out_txt: "path_suffix ''out.txt'' = ''.txt''"
  by (simp add: path_suffix_def path_name_def path_parts_def rfind_def Let_def)

text \<open>
  Claim C5. Given an output path whose extension is neither \<^verbatim>\<open>.csv\<close> nor \<^verbatim>\<open>.json\<close>, the run
  ends in an error and no file is created or changed; when the data was fetched, the error
  is the \<^verbatim>\<open>ValueError\<close> with the message \<^verbatim>\<open>Output file must be CSV or JSON\<close>.
\<close>

theorem other_extension_writes_nothing:
  assumes "p \<noteq> []" and "path_suffix p \<noteq> ''.csv''" and "path_suffix p \<noteq> ''.json''"
  shows "files (snd (main w repos org user (Some p) auth_token s)) = files s \<and>
     isl (fst (main w repos org user (Some p) auth_token s)) \<and>
     (isl (fst (fetch_stage w repos org user auth_token s)) \<or>
      fst (main w repos org user (Some p) auth_token s) =
        Inl (ValueError ''Output file must be CSV or JSON''))"
proof (cases "fetch_stage w repos org user auth_token s")
  case (Pair r s2)
  with fetch_stage_files [of w repos org user auth_token s] have f: "files s2 = files s"
    by simp
  show ?thesis
  proof (cases r)
    case (Inl e)
    with Pair f show ?thesis by (simp add: main_def)
  next
    case (Inr final_data)
    with Pair f assms show ?thesis
      by (simp add: main_def emit_output_def truthy_def)
  qed
qed

theorem other_extension_writes_nothing_witness:
  "files (snd (main acme_world (Some ''repos.yml'') None None (Some ''out.txt'') None empty_state)) =
     (\<lambda>path. None) \<and>
   fst (main acme_world (Some ''repos.yml'') None None (Some ''out.txt'') None empty_state) =
     Inl (ValueError ''Output file must be CSV or JSON'')"
  using other_extension_writes_nothing [of "''out.txt''" acme_world "Some ''repos.yml''" None None None
      empty_state]
  by (simp add: suffix_out_txt acme_fetch_stage) (simp add: empty_state_def)

lemma suffix_out_csv: "path_suffix ''out.csv'' = ''.csv''"
  by (simp add: path_suffix_def path_name_def path_parts_def rfind_def Let_def)

lemma str_int_small:
  "str_int 3 = ''3''" "str_int 10 = ''10''" "str_int 5 = ''5''" "str_int 4 = ''4''"
  "str_int 50 = ''50''" "str_int 20 = ''20''"
  by (simp_all add: str_int_def str_nat.simps digit_char_def)

lemma acme_csv:
  "write_csv acme_world [acme_record ''acme/widgets'', acme_record ''acme/gadgets''] =
     (None,
      ''Repo,Forks,Stars,Watchers,Clones Total,Clones Unique,Views Total,Views Unique'' @ [CR, LF]
        @ ''acme/widgets,3,10,10,5,4,50,20'' @ [CR, LF]
        @ ''acme/gadgets,3,10,10,5,4,50,20'' @ [CR, LF])"
  by (simp add: write_csv_def row_values_def fieldnames_def subscript_str_def py_getitem_def
      acme_record_def csv_row_def csv_cell_def py_str_def csv_field_def csv_special_def
      str_int_small CR_def LF_def DQUOTE_def)

text \<open>
  Claim C1 asks that the CSV is written to the path given as \<^verbatim>\<open>--output-file\<close>. Line 93 opens
  the literal \<^verbatim>\<open>data.csv\<close> instead: run with \<^verbatim>\<open>--output-file out.csv\<close>, the program succeeds,
  leaves \<^verbatim>\<open>out.csv\<close> absent and writes the CSV text to \<^verbatim>\<open>data.csv\<close>.
\<close>

theorem csv_goes_to_data_csv:
  "fst (main acme_world (Some ''repos.yml'') None None (Some ''out.csv'') None empty_state) = Inr () \<and>
   files (snd (main acme_world (Some ''repos.yml'') None None (Some ''out.csv'') None empty_state))
     ''out.csv'' = None \<and>
   files (snd (main acme_world (Some ''repos.yml'') None None (Some ''out.csv'') None empty_state))
     ''data.csv'' =
     Some (''Repo,Forks,Stars,Watchers,Clones Total,Clones Unique,Views Total,Views Unique'' @ [CR, LF]
        @ ''acme/widgets,3,10,10,5,4,50,20'' @ [CR, LF]
        @ ''acme/gadgets,3,10,10,5,4,50,20'' @ [CR, LF])"
  by (simp add: main_def acme_fetch_stage emit_output_def truthy_def suffix_out_csv Let_def
      acme_csv print_line_def write_file_def)
    (simp add: acme_world_def)

section \<open>The CSV file\<close>

lemma lines_from_terminated:
  "no_line_break l \<Longrightarrow> lines_from cur (l @ CR # LF # rest) = (cur @ l) # lines_from [] rest"
proof (induction l arbitrary: cur)
  case Nil
  show ?case by simp
next
  case (Cons c l)
  then have c: "c \<noteq> CR" "c \<noteq> LF" and l: "no_line_break l"
    by (simp_all add: no_line_break_def)
  obtain d ds where tail: "l @ CR # LF # rest = d # ds"
    by (cases "l @ CR # LF # rest") auto
  have "lines_from cur ((c # l) @ CR # LF # rest) = lines_from (cur @ [c]) (l @ CR # LF # rest)"
    using c by (simp add: tail)
  also have "\<dots> = ((cur @ [c]) @ l) # lines_from [] rest"
    by (rule Cons.IH [OF l])
  finally show ?case by simp
qed

lemma digit_char_plain: "n < 10 \<Longrightarrow> \<not> csv_special (digit_char n)"
proof -
  assume "n < 10"
  then have "n \<in> {0, 1, 2, 3, 4, 5, 6, 7, 8, 9}" by auto
  then show ?thesis
    by (auto simp: digit_char_def csv_special_def CR_def LF_def DQUOTE_def)
qed

lemma str_nat_plain: "\<not> list_ex csv_special (str_nat n)"
proof (induction n rule: str_nat.induct)
  case (1 n)
  show ?case
  proof (cases "n < 10")
    case True
    then show ?thesis
      by (subst str_nat.simps) (simp add: digit_char_plain)
  next
    case False
    with "1" have "\<not> list_ex csv_special (str_nat (n div 10))" by simp
    moreover have "\<not> csv_special (digit_char (n mod 10))"
      by (rule digit_char_plain) simp
    ultimately show ?thesis
      using False by (subst str_nat.simps) simp
  qed
qed

lemma str_int_plain: "\<not> list_ex csv_special (str_int i)"
  by (simp add: str_int_def str_nat_plain) (simp add: csv_special_def CR_def LF_def DQUOTE_def)

lemma csv_field_str_int: "csv_field (str_int i) = str_int i"
  by (simp add: csv_field_def str_int_plain)

lemma no_line_break_append: "no_line_break (a @ b) \<longleftrightarrow> no_line_break a \<and> no_line_break b"
  by (simp add: no_line_break_def)

lemma no_line_break_plain: "\<not> list_ex csv_special s \<Longrightarrow> no_line_break s"
  by (induction s) (auto simp: no_line_break_def csv_special_def)

lemma no_line_break_csv_field: "no_line_break s \<Longrightarrow> no_line_break (csv_field s)"
proof -
  assume s: "no_line_break s"
  have q: "DQUOTE \<noteq> CR" "DQUOTE \<noteq> LF"
    by (simp_all add: DQUOTE_def CR_def LF_def)
  have "no_line_break (concat (map (\<lambda>c. if c = DQUOTE then [c, c] else [c]) s))"
    using s by (induction s) (auto simp: no_line_break_def)
  with s q show ?thesis
    by (simp add: csv_field_def no_line_break_def)
qed

lemma no_line_break_csv_line: "no_line_break (rs_repo r) \<Longrightarrow> no_line_break (csv_line r)"
proof -
  assume "no_line_break (rs_repo r)"
  then have a: "no_line_break (csv_field (rs_repo r))"
    by (rule no_line_break_csv_field)
  have b: "no_line_break (str_int i)" for i
    by (rule no_line_break_plain) (rule str_int_plain)
  have c: "no_line_break '',''"
    by (simp add: no_line_break_def CR_def LF_def)
  have d: "no_line_break (CHR '','' # s) \<longleftrightarrow> no_line_break s" for s
    by (simp add: no_line_break_def CR_def LF_def)
  show ?thesis
    by (simp add: csv_line_def no_line_break_append a b d)
qed

lemma csv_row_record:
  "row_values (record_value r) =
     Inr [PStr (rs_repo r), PInt (rs_forks r), PInt (rs_stars r), PInt (rs_watchers r),
          PInt (rs_clones_total r), PInt (rs_clones_unique r),
          PInt (rs_views_total r), PInt (rs_views_unique r)]"
  by (simp add: row_values_def fieldnames_def record_value_def subscript_str_def py_getitem_def)

lemma csv_row_text:
  "csv_row
     [csv_cell w (PStr (rs_repo r)), csv_cell w (PInt (rs_forks r)), csv_cell w (PInt (rs_stars r)),
      csv_cell w (PInt (rs_watchers r)), csv_cell w (PInt (rs_clones_total r)),
      csv_cell w (PInt (rs_clones_unique r)), csv_cell w (PInt (rs_views_total r)),
      csv_cell w (PInt (rs_views_unique r))] = csv_line r @ [CR, LF]"
  by (simp add: csv_row_def csv_cell_def py_str_def csv_line_def csv_field_str_int)

lemma write_rows_records:
  "write_rows w (map record_value recs) written =
     (None, written @ concat (map (\<lambda>r. csv_line r @ [CR, LF]) recs))"
  by (induction recs arbitrary: written) (simp_all add: csv_row_record csv_row_text)

lemma csv_header_row: "csv_row fieldnames = header_line @ [CR, LF]"
  by (simp add: csv_row_def fieldnames_def header_line_def csv_field_def csv_special_def
      CR_def LF_def DQUOTE_def)

lemma write_csv_records:
  "write_csv w (map record_value recs) =
     (None, header_line @ [CR, LF] @ concat (map (\<lambda>r. csv_line r @ [CR, LF]) recs))"
  by (simp add: write_csv_def write_rows_records csv_header_row)

lemma lines_of_rows:
  "list_all (\<lambda>r. no_line_break (rs_repo r)) recs \<Longrightarrow>
     lines_from [] (concat (map (\<lambda>r. csv_line r @ [CR, LF]) recs)) = map csv_line recs"
proof (induction recs)
  case Nil
  show ?case by simp
next
  case (Cons r recs)
  then have r: "no_line_break (csv_line r)" and rest: "list_all (\<lambda>r. no_line_break (rs_repo r)) recs"
    by (simp_all add: no_line_break_csv_line)
  have "lines_from [] (csv_line r @ CR # LF # concat (map (\<lambda>r. csv_line r @ [CR, LF]) recs)) =
      ([] @ csv_line r) # lines_from [] (concat (map (\<lambda>r. csv_line r @ [CR, LF]) recs))"
    by (rule lines_from_terminated [OF r])
  with Cons.IH [OF rest] show ?case by simp
qed

lemma header_no_line_break: "no_line_break header_line"
  by (simp add: header_line_def no_line_break_def CR_def LF_def)

lemma csv_file_lines:
  assumes "list_all (\<lambda>r. no_line_break (rs_repo r)) recs"
  shows "file_lines (snd (write_csv w (map record_value recs))) = header_line # map csv_line recs"
proof -
  have "lines_from [] (header_line @ CR # LF # concat (map (\<lambda>r. csv_line r @ [CR, LF]) recs)) =
      ([] @ header_line) # lines_from [] (concat (map (\<lambda>r. csv_line r @ [CR, LF]) recs))"
    by (rule lines_from_terminated [OF header_no_line_break])
  with lines_of_rows [OF assms] show ?thesis
    by (simp add: file_lines_def write_csv_records)
qed

lemma path_suffix_Nil: "path_suffix [] = []"
  by (simp add: path_suffix_def path_name_def path_parts_def rfind_def)

lemma acme_csv_lines:
  "csv_line (acme_stats ''acme/widgets'') = ''acme/widgets,3,10,10,5,4,50,20''"
  "csv_line (acme_stats ''acme/gadgets'') = ''acme/gadgets,3,10,10,5,4,50,20''"
  by (simp_all add: csv_line_def acme_stats_def csv_field_def csv_special_def str_int_small
      CR_def LF_def DQUOTE_def)

lemma acme_can_open: "can_open acme_world path"
  by (simp add: acme_world_def)

text \<open>
  Claim C7, as amended. For every list of N records whose identifiers hold no carriage return
  and no line feed, the CSV file has exactly N + 1 lines: the header
  \<^verbatim>\<open>Repo,Forks,Stars,Watchers,Clones Total,Clones Unique,Views Total,Views Unique\<close>, then one row
  per record in order, which is the identifier (between double quotes, its own double quotes
  doubled, when it holds a comma or a double quote) and the seven counts in decimal,
  separated by commas.
\<close>

theorem csv_lines:
  assumes "list_all (\<lambda>r. no_line_break (rs_repo r)) recs"
    and "path_suffix p = ''.csv''"
    and "can_open w ''data.csv''"
  shows "\<exists>content. files (snd (emit_output w (Some p) (map record_value recs) s)) ''data.csv'' = Some content \<and>
     file_lines content =
       ''Repo,Forks,Stars,Watchers,Clones Total,Clones Unique,Views Total,Views Unique''
         # map csv_line recs \<and>
     length (file_lines content) = length recs + 1"
proof -
  define content where "content = header_line @ [CR, LF] @ concat (map (\<lambda>r. csv_line r @ [CR, LF]) recs)"
  from assms(2) have p: "truthy (Some p)"
    by (auto simp: truthy_def path_suffix_Nil)
  have w: "write_csv w (map record_value recs) = (None, content)"
    by (simp add: write_csv_records content_def)
  have "files (snd (emit_output w (Some p) (map record_value recs) s)) ''data.csv'' = Some content"
    using p assms(2,3) by (simp add: emit_output_def w write_file_def print_line_def)
  moreover have "file_lines content = header_line # map csv_line recs"
    using csv_file_lines [OF assms(1), of w] by (simp add: w)
  ultimately show ?thesis
    by (simp add: header_line_def)
qed

theorem csv_lines_witness:
  "\<exists>content. files (snd (emit_output acme_world (Some ''out.csv'')
             (map record_value [acme_stats ''acme/widgets'', acme_stats ''acme/gadgets'']) empty_state))
           ''data.csv'' = Some content \<and>
     file_lines content =
       [''Repo,Forks,Stars,Watchers,Clones Total,Clones Unique,Views Total,Views Unique'',
        ''acme/widgets,3,10,10,5,4,50,20'',
        ''acme/gadgets,3,10,10,5,4,50,20'']"
proof -
  have a: "list_all (\<lambda>r. no_line_break (rs_repo r)) [acme_stats ''acme/widgets'', acme_stats ''acme/gadgets'']"
    by (simp add: acme_stats_def no_line_break_def CR_def LF_def)
  from csv_lines [OF a suffix_out_csv acme_can_open, of empty_state] show ?thesis
    by (auto simp: acme_csv_lines)
qed

lemma broken_fetch_stage:
  "fst (fetch_stage broken_world (Some ''repos.yml'') None None None empty_state) =
     Inr [record_value broken_stats]"
  by (simp add: fetch_stage_def Let_def resolve_headers_def resolve_source_def truthy_def
      fetch_all_def source_value_def broken_source_def subscript_str_def py_getitem_def
      py_iter_def py_next_iter_def get_repo_data_def request_json_def repo_url_def py_str_def
      build_record_def broken_world_def broken_http_def acme_detail_def acme_views_def
      acme_clones_def record_value_def broken_stats_def empty_state_def)

text \<open>
  The claim as first stated fails for an identifier that holds a line feed: the writer encloses
  the field in double quotes and keeps the line feed. The run below fetches one record and
  writes three lines.
\<close>

theorem csv_lines_counterexample:
  "\<exists>content.
     fst (fetch_stage broken_world (Some ''repos.yml'') None None None empty_state) =
       Inr [record_value broken_stats] \<and>
     files (snd (main broken_world (Some ''repos.yml'') None None (Some ''out.csv'') None empty_state))
       ''data.csv'' = Some content \<and>
     file_lines content =
       [''Repo,Forks,Stars,Watchers,Clones Total,Clones Unique,Views Total,Views Unique'',
        [DQUOTE] @ ''acme'',
        ''corp/widgets'' @ [DQUOTE] @ '',3,10,10,5,4,50,20''] \<and>
     length (file_lines content) = 3 \<and>
     length [record_value broken_stats] + 1 = 2"
proof -
  define content where "content =
      ''Repo,Forks,Stars,Watchers,Clones Total,Clones Unique,Views Total,Views Unique'' @ [CR, LF]
        @ [DQUOTE] @ ''acme'' @ [LF] @ ''corp/widgets'' @ [DQUOTE] @ '',3,10,10,5,4,50,20'' @ [CR, LF]"
  obtain s2 where stage: "fetch_stage broken_world (Some ''repos.yml'') None None None empty_state =
      (Inr [record_value broken_stats], s2)"
    using broken_fetch_stage
    by (cases "fetch_stage broken_world (Some ''repos.yml'') None None None empty_state") simp
  have w: "write_csv broken_world [record_value broken_stats] = (None, content)"
    using write_csv_records [of broken_world "[broken_stats]"]
    by (simp add: content_def header_line_def csv_line_def broken_stats_def csv_field_def
        csv_special_def str_int_small CR_def LF_def DQUOTE_def)
  have c: "can_open broken_world path" for path
    by (simp add: broken_world_def)
  have f: "files (snd (main broken_world (Some ''repos.yml'') None None (Some ''out.csv'') None
      empty_state)) ''data.csv'' = Some content"
    by (simp add: main_def stage emit_output_def truthy_def suffix_out_csv w write_file_def
        print_line_def Let_def c)
  have l: "file_lines content =
       [''Repo,Forks,Stars,Watchers,Clones Total,Clones Unique,Views Total,Views Unique'',
        [DQUOTE] @ ''acme'',
        ''corp/widgets'' @ [DQUOTE] @ '',3,10,10,5,4,50,20'']"
    by (simp add: content_def file_lines_def CR_def LF_def DQUOTE_def)
  show ?thesis
    using broken_fetch_stage f l by simp
qed

section \<open>The JSON file\<close>

subsection \<open>Strings\<close>

lemma skip_ws_indent: "skip_ws (newline_indent lvl @ s) = skip_ws s"
proof -
  have "dropWhile is_ws (replicate k (CHR '' '') @ s) = dropWhile is_ws s" for k
    by (induction k) (simp_all add: is_ws_def)
  then show ?thesis
    by (simp add: skip_ws_def newline_indent_def is_ws_def)
qed

lemma skip_ws_plain: "\<not> is_ws c \<Longrightarrow> skip_ws (c # s) = c # s"
  by (simp add: skip_ws_def)

lemma hex_digit_val: "k < 16 \<Longrightarrow> hex_val (hex_digit k) = Some k"
proof -
  assume "k < 16"
  then have "k = 0 \<or> k = 1 \<or> k = 2 \<or> k = 3 \<or> k = 4 \<or> k = 5 \<or> k = 6 \<or> k = 7 \<or> k = 8 \<or>
      k = 9 \<or> k = 10 \<or> k = 11 \<or> k = 12 \<or> k = 13 \<or> k = 14 \<or> k = 15"
    by arith
  then show ?thesis
    by (auto simp: hex_digit_def hex_val_def)
qed

lemma hex4_escape:
  "hex4 (CHR ''0'') (CHR ''0'') (hex_digit (of_char c div 16)) (hex_digit (of_char c mod 16)) =
     Some (of_char c)"
proof -
  have "(of_char c :: nat) < 256" by simp
  then have d: "(of_char c :: nat) div 16 < 16" by arith
  have z: "hex_val (CHR ''0'') = Some 0" by (simp add: hex_val_def)
  show ?thesis
    by (simp add: hex4_def z hex_digit_val d)
qed

lemma scan_string_escape:
  "scan_string (json_escape c @ s) =
     (case scan_string s of None \<Rightarrow> None | Some (str, r) \<Rightarrow> Some (c # str, r))"
proof -
  consider (dq) "c = DQUOTE" | (bs) "c = CHR 0x5C" | (n) "c = CHR 0x0A" | (r) "c = CHR 0x0D"
    | (t) "c = CHR 0x09" | (b) "c = CHR 0x08" | (f) "c = CHR 0x0C"
    | (plain) "c \<noteq> DQUOTE" "c \<noteq> CHR 0x5C" "32 \<le> (of_char c :: nat)" "(of_char c :: nat) \<le> 126"
    | (other) "c \<noteq> DQUOTE" "c \<noteq> CHR 0x5C" "c \<noteq> CHR 0x0A" "c \<noteq> CHR 0x0D" "c \<noteq> CHR 0x09"
        "c \<noteq> CHR 0x08" "c \<noteq> CHR 0x0C" "\<not> (32 \<le> (of_char c :: nat) \<and> (of_char c :: nat) \<le> 126)"
    by blast
  then show ?thesis
  proof cases
    case dq
    then show ?thesis
      by (auto simp: json_escape_def unescape_def DQUOTE_def split: option.splits)
  next
    case bs
    then show ?thesis
      by (auto simp: json_escape_def unescape_def DQUOTE_def split: option.splits)
  next
    case n
    then show ?thesis
      by (auto simp: json_escape_def unescape_def DQUOTE_def split: option.splits)
  next
    case r
    then show ?thesis
      by (auto simp: json_escape_def unescape_def DQUOTE_def split: option.splits)
  next
    case t
    then show ?thesis
      by (auto simp: json_escape_def unescape_def DQUOTE_def split: option.splits)
  next
    case b
    then show ?thesis
      by (auto simp: json_escape_def unescape_def DQUOTE_def split: option.splits)
  next
    case f
    then show ?thesis
      by (auto simp: json_escape_def unescape_def DQUOTE_def split: option.splits)
  next
    case plain
    have "c \<noteq> CHR 0x0A" "c \<noteq> CHR 0x0D" "c \<noteq> CHR 0x09" "c \<noteq> CHR 0x08" "c \<noteq> CHR 0x0C"
      using plain(3) by auto
    with plain show ?thesis
      by (auto simp: json_escape_def Let_def split: option.splits)
  next
    case other
    then show ?thesis
      by (auto simp: json_escape_def Let_def hex4_escape unescape_def DQUOTE_def split: option.splits)
  qed
qed

lemma scan_string_body:
  "scan_string (concat (map json_escape s) @ DQUOTE # rest) = Some (s, rest)"
  by (induction s) (simp_all add: scan_string_escape)

lemma scan_json_str: "scan_string (tl (json_str s) @ rest) = Some (s, rest)"
  using scan_string_body [of s rest] by (simp add: json_str_def)

subsection \<open>Integers\<close>

lemma digit_char_facts:
  assumes "k < 10"
  shows "is_digit (digit_char k)" and "digit_val (digit_char k) = k"
    and "0 < k \<Longrightarrow> digit_char k \<noteq> CHR ''0''" and "digit_char k \<noteq> CHR ''-''"
proof -
  from assms have "k = 0 \<or> k = 1 \<or> k = 2 \<or> k = 3 \<or> k = 4 \<or> k = 5 \<or> k = 6 \<or> k = 7 \<or> k = 8 \<or> k = 9"
    by arith
  then show "is_digit (digit_char k)" and "digit_val (digit_char k) = k"
    and "0 < k \<Longrightarrow> digit_char k \<noteq> CHR ''0''" and "digit_char k \<noteq> CHR ''-''"
    by (auto simp: digit_char_def is_digit_def digit_val_def)
qed

lemma str_nat_digits: "list_all is_digit (str_nat n) \<and> str_nat n \<noteq> []"
proof (induction n rule: str_nat.induct)
  case (1 n)
  show ?case
  proof (cases "n < 10")
    case True
    then show ?thesis
      by (subst (1 2) str_nat.simps) (simp add: digit_char_facts)
  next
    case False
    with "1" have "list_all is_digit (str_nat (n div 10))" by simp
    moreover have "is_digit (digit_char (n mod 10))"
      by (rule digit_char_facts) simp
    ultimately show ?thesis
      using False by (subst (1 2) str_nat.simps) simp
  qed
qed

lemma digits_val_snoc: "digits_val (ds @ [c]) = 10 * digits_val ds + digit_val c"
  by (simp add: digits_val_def)

lemma digits_val_str_nat: "digits_val (str_nat n) = n"
proof (induction n rule: str_nat.induct)
  case (1 n)
  show ?case
  proof (cases "n < 10")
    case True
    then show ?thesis
      by (subst str_nat.simps) (simp add: digits_val_def digit_char_facts)
  next
    case False
    with "1" have "digits_val (str_nat (n div 10)) = n div 10" by simp
    moreover have "digit_val (digit_char (n mod 10)) = n mod 10"
      by (rule digit_char_facts) simp
    ultimately show ?thesis
      using False by (subst str_nat.simps) (simp add: digits_val_snoc)
  qed
qed

lemma str_nat_hd: "0 < n \<Longrightarrow> hd (str_nat n) \<noteq> CHR ''0''"
proof (induction n rule: str_nat.induct)
  case (1 n)
  show ?case
  proof (cases "n < 10")
    case True
    with "1.prems" show ?thesis
      by (subst str_nat.simps) (simp add: digit_char_facts)
  next
    case False
    then have "0 < n div 10" by arith
    with "1.IH" False have "hd (str_nat (n div 10)) \<noteq> CHR ''0''" by simp
    moreover have "str_nat (n div 10) \<noteq> []"
      using str_nat_digits by blast
    ultimately show ?thesis
      using False by (subst str_nat.simps) simp
  qed
qed

lemma str_nat_length: "n < 10 \<Longrightarrow> length (str_nat n) = 1"
  by (subst str_nat.simps) simp

lemma str_nat_leading: "\<not> (take 1 (str_nat n) = ''0'' \<and> 1 < length (str_nat n))"
proof (cases "n < 10")
  case True
  then show ?thesis by (simp add: str_nat_length)
next
  case False
  then have "hd (str_nat n) \<noteq> CHR ''0''"
    by (intro str_nat_hd) simp
  moreover have "str_nat n \<noteq> []"
    using str_nat_digits by blast
  ultimately show ?thesis
    by (cases "str_nat n") auto
qed

lemma str_nat_no_minus: "take 1 (str_nat n @ rest) \<noteq> ''-''"
proof -
  obtain c cs where s: "str_nat n = c # cs"
    using str_nat_digits [of n] by (cases "str_nat n") auto
  with str_nat_digits [of n] have "is_digit c" by simp
  then have "c \<noteq> CHR ''-''" by (auto simp: is_digit_def)
  with s show ?thesis by simp
qed

lemma follow_ok_digits:
  assumes "follow_ok rest" and "list_all is_digit ds"
  shows "takeWhile is_digit (ds @ rest) = ds" and "dropWhile is_digit (ds @ rest) = rest"
proof -
  have r: "takeWhile is_digit rest = []" "dropWhile is_digit rest = rest"
    using assms(1) by (cases rest; auto simp: follow_ok_def is_digit_def LF_def)+
  from assms(2) show "takeWhile is_digit (ds @ rest) = ds"
    by (induction ds) (simp_all add: r)
  from assms(2) show "dropWhile is_digit (ds @ rest) = rest"
    by (induction ds) (simp_all add: r)
qed

lemma follow_ok_no_float:
  "follow_ok rest \<Longrightarrow> \<not> (take 1 rest = ''.'' \<or> take 1 rest = ''e'' \<or> take 1 rest = ''E'')"
  by (cases rest) (auto simp: follow_ok_def LF_def)

lemma scan_int_nat:
  assumes "follow_ok rest"
  shows "scan_int (str_nat n @ rest) = Some (PInt (int n), rest)"
  using follow_ok_digits [OF assms, of "str_nat n"] str_nat_digits [of n] str_nat_leading [of n]
    follow_ok_no_float [OF assms] str_nat_no_minus [of n rest]
  by (simp add: scan_int_def Let_def digits_val_str_nat)

lemma scan_int_str_int:
  assumes "follow_ok rest"
  shows "scan_int (str_int i @ rest) = Some (PInt i, rest)"
proof (cases "i < 0")
  case True
  have "scan_int (CHR ''-'' # str_nat (nat (- i)) @ rest) = Some (PInt (- int (nat (- i))), rest)"
    using follow_ok_digits [OF assms, of "str_nat (nat (- i))"] str_nat_digits [of "nat (- i)"]
      str_nat_leading [of "nat (- i)"] follow_ok_no_float [OF assms]
    by (simp add: scan_int_def Let_def digits_val_str_nat)
  with True show ?thesis by (simp add: str_int_def)
next
  case False
  with scan_int_nat [OF assms, of "nat i"] show ?thesis by (simp add: str_int_def)
qed

subsection \<open>Values\<close>

lemma value_start_append: "value_start s \<Longrightarrow> value_start (s @ r)"
  by (cases s) (simp_all add: value_start_def)

lemma value_start_skip: "value_start s \<Longrightarrow> skip_ws s = s"
  by (cases s) (simp_all add: value_start_def skip_ws_def)

lemma value_start_not_close: "value_start s \<Longrightarrow> take 1 s \<noteq> '']'' \<and> take 1 s \<noteq> ''}''"
  by (cases s) (simp_all add: value_start_def)

lemma str_int_start:
  "\<exists>c cs. str_int i = c # cs \<and> (c = CHR ''-'' \<or> is_digit c)"
proof -
  obtain c cs where "str_nat (nat \<bar>i\<bar>) = c # cs" "is_digit c"
    using str_nat_digits [of "nat \<bar>i\<bar>"] by (cases "str_nat (nat \<bar>i\<bar>)") auto
  then show ?thesis
    by (cases "i < 0") (auto simp: str_int_def abs_if)
qed

lemma value_start_str_int: "value_start (str_int i)"
  using str_int_start [of i]
  by (auto simp: value_start_def is_digit_def is_ws_def LF_def CR_def)

lemma value_start_dumps: "value_start (dumps_at lvl v)"
  by (cases v)
    (auto simp: value_start_def value_start_str_int [unfolded value_start_def] json_str_def
      is_ws_def LF_def CR_def DQUOTE_def)

lemma value_start_items: "xs \<noteq> [] \<Longrightarrow> value_start (dumps_items lvl xs)"
  by (cases xs) (simp_all add: value_start_append value_start_dumps)

lemma pairs_start: "kvs \<noteq> [] \<Longrightarrow> \<exists>cs. dumps_pairs lvl kvs = DQUOTE # cs"
  by (cases kvs) (simp_all add: json_str_def)

lemma dict_insert_fresh: "k \<notin> set (map fst d) \<Longrightarrow> dict_insert d k v = d @ [(k, v)]"
  by (induction d) auto

lemma dict_fold_distinct:
  "distinct (map fst (d @ pairs)) \<Longrightarrow>
     foldl (\<lambda>d kv. dict_insert d (fst kv) (snd kv)) d pairs = d @ pairs"
proof (induction pairs arbitrary: d)
  case Nil
  show ?case by simp
next
  case (Cons kv pairs)
  from Cons.prems have fresh: "fst kv \<notin> set (map fst d)" by auto
  from Cons.prems have "distinct (map fst ((d @ [kv]) @ pairs))" by simp
  from Cons.IH [OF this] show ?case
    by (simp add: dict_insert_fresh [OF fresh])
qed

lemma dict_of_pairs_distinct: "distinct (map fst pairs) \<Longrightarrow> dict_of_pairs pairs = pairs"
  using dict_fold_distinct [of "[]" pairs] by (simp add: dict_of_pairs_def)

lemma scan_value_scalar:
  assumes "follow_ok rest"
  shows "scan_value (Suc n) (dumps_at lvl PNone @ rest) = Some (PNone, rest)"
    and "scan_value (Suc n) (dumps_at lvl (PBool b) @ rest) = Some (PBool b, rest)"
    and "scan_value (Suc n) (dumps_at lvl (PInt i) @ rest) = Some (PInt i, rest)"
    and "scan_value (Suc n) (dumps_at lvl (PStr s) @ rest) = Some (PStr s, rest)"
proof -
  show "scan_value (Suc n) (dumps_at lvl PNone @ rest) = Some (PNone, rest)"
    by (simp add: DQUOTE_def)
  show "scan_value (Suc n) (dumps_at lvl (PBool b) @ rest) = Some (PBool b, rest)"
    by (simp add: DQUOTE_def)
  obtain c cs where c: "str_int i = c # cs" "c = CHR ''-'' \<or> is_digit c"
    using str_int_start by blast
  have "scan_value (Suc n) (str_int i @ rest) = scan_int (str_int i @ rest)"
    using c by (auto simp: DQUOTE_def is_digit_def)
  then show "scan_value (Suc n) (dumps_at lvl (PInt i) @ rest) = Some (PInt i, rest)"
    by (simp add: scan_int_str_int [OF assms])
  have "scan_value (Suc n) (json_str s @ rest) =
      (case scan_string (tl (json_str s) @ rest) of
         None \<Rightarrow> None | Some (str, r) \<Rightarrow> Some (PStr str, r))"
    by (simp add: json_str_def)
  then show "scan_value (Suc n) (dumps_at lvl (PStr s) @ rest) = Some (PStr s, rest)"
    by (simp add: scan_json_str)
qed

lemma follow_ok_simps:
  "follow_ok (CHR '','' # s)" "follow_ok (newline_indent k @ s)" "follow_ok []"
  by (simp_all add: follow_ok_def newline_indent_def)

lemma skip_ws_close: "skip_ws (newline_indent k @ CHR '']'' # s) = CHR '']'' # s"
  "skip_ws (newline_indent k @ CHR ''}'' # s) = CHR ''}'' # s"
  by (simp_all add: skip_ws_indent skip_ws_plain is_ws_def LF_def CR_def)

lemma scan_dumps:
  "wf_value v \<Longrightarrow> nodes v \<le> f \<Longrightarrow> follow_ok rest \<Longrightarrow>
     scan_value f (dumps_at lvl v @ rest) = Some (v, rest)"
  and "xs \<noteq> [] \<Longrightarrow> wf_items xs \<Longrightarrow> nodes_items xs \<le> f \<Longrightarrow>
     scan_items f (dumps_items lvl xs @ newline_indent k @ CHR '']'' # rest) = Some (xs, rest)"
  and "kvs \<noteq> [] \<Longrightarrow> wf_pairs kvs \<Longrightarrow> nodes_pairs kvs \<le> f \<Longrightarrow>
     scan_pairs f (dumps_pairs lvl kvs @ newline_indent k @ CHR ''}'' # rest) = Some (kvs, rest)"
proof (induction lvl v and lvl xs and lvl kvs arbitrary: f rest and f k rest and f k rest
    rule: dumps_at_dumps_items_dumps_pairs.induct)
  case (1 lvl)
  then obtain n where "f = Suc n" by (cases f) auto
  with "1.prems" show ?case by (simp only: scan_value_scalar)
next
  case (2 lvl b)
  then obtain n where "f = Suc n" by (cases f) auto
  with "2.prems" show ?case by (simp only: scan_value_scalar)
next
  case (3 lvl i)
  then obtain n where "f = Suc n" by (cases f) auto
  with "3.prems" show ?case by (simp only: scan_value_scalar)
next
  case (4 lvl s)
  then obtain n where "f = Suc n" by (cases f) auto
  with "4.prems" show ?case by (simp only: scan_value_scalar)
next
  case (5 lvl xs)
  from "5.prems" obtain n where f: "f = Suc n" and n: "nodes_items xs \<le> n"
    by (cases f) auto
  show ?case
  proof (cases "xs = []")
    case True
    then show ?thesis
      by (simp add: f DQUOTE_def skip_ws_plain is_ws_def LF_def CR_def)
  next
    case False
    let ?body = "dumps_items (Suc lvl) xs @ newline_indent lvl @ CHR '']'' # rest"
    have start: "value_start ?body"
      by (rule value_start_append [OF value_start_items [OF False]])
    have ih: "scan_items n ?body = Some (xs, rest)"
      using "5.IH" [OF False False] "5.prems"(1) n by simp
    have "dumps_at lvl (PList xs) @ rest = CHR ''['' # newline_indent (Suc lvl) @ ?body"
      using False by simp
    then have "scan_value f (dumps_at lvl (PList xs) @ rest) =
        (case scan_items n ?body of None \<Rightarrow> None | Some (items, r) \<Rightarrow> Some (PList items, r))"
      using value_start_not_close [OF start]
      by (simp add: f DQUOTE_def skip_ws_indent value_start_skip [OF start])
    with ih show ?thesis by simp
  qed
next
  case (6 lvl kvs)
  from "6.prems" obtain n where f: "f = Suc n" and n: "nodes_pairs kvs \<le> n"
    by (cases f) auto
  show ?case
  proof (cases "kvs = []")
    case True
    then show ?thesis
      by (simp add: f DQUOTE_def skip_ws_plain is_ws_def LF_def CR_def)
  next
    case False
    let ?body = "dumps_pairs (Suc lvl) kvs @ newline_indent lvl @ CHR ''}'' # rest"
    obtain cs where cs: "dumps_pairs (Suc lvl) kvs = DQUOTE # cs"
      using pairs_start [OF False] by blast
    have skip: "skip_ws ?body = ?body"
      by (simp add: cs skip_ws_plain is_ws_def DQUOTE_def LF_def CR_def)
    have open_: "take 1 ?body \<noteq> ''}''"
      by (simp add: cs DQUOTE_def)
    have ih: "scan_pairs n ?body = Some (kvs, rest)"
      using "6.IH" [OF False False] "6.prems"(1) n by simp
    have "dumps_at lvl (PDict kvs) @ rest = CHR ''{'' # newline_indent (Suc lvl) @ ?body"
      using False by simp
    then have "scan_value f (dumps_at lvl (PDict kvs) @ rest) =
        (case scan_pairs n ?body of
           None \<Rightarrow> None | Some (pairs, r) \<Rightarrow> Some (PDict (dict_of_pairs pairs), r))"
      using open_ by (simp add: f DQUOTE_def skip_ws_indent skip)
    with ih "6.prems"(1) show ?thesis
      by (simp add: dict_of_pairs_distinct)
  qed
next
  case (7 lvl)
  then show ?case by simp
next
  case (8 lvl x xs)
  from "8.prems" obtain n where f: "f = Suc n" and nx: "nodes x \<le> n" and nxs: "nodes_items xs \<le> n"
    by (cases f) auto
  from "8.prems" have wx: "wf_value x" and wxs: "wf_items xs" by simp_all
  show ?case
  proof (cases "xs = []")
    case True
    let ?after = "newline_indent k @ CHR '']'' # rest"
    have "scan_value n (dumps_at lvl x @ ?after) = Some (x, ?after)"
      by (rule "8.IH"(1) [OF wx nx]) (rule follow_ok_simps)
    with True show ?thesis
      by (simp add: f skip_ws_close)
  next
    case False
    let ?tail = "dumps_items lvl xs @ newline_indent k @ CHR '']'' # rest"
    let ?after = "CHR '','' # newline_indent lvl @ ?tail"
    have start: "value_start ?tail"
      by (rule value_start_append [OF value_start_items [OF False]])
    have v: "scan_value n (dumps_at lvl x @ ?after) = Some (x, ?after)"
      by (rule "8.IH"(1) [OF wx nx]) (rule follow_ok_simps)
    have t: "scan_items n ?tail = Some (xs, rest)"
      by (rule "8.IH"(2) [OF False False wxs nxs])
    have "dumps_items lvl (x # xs) @ newline_indent k @ CHR '']'' # rest = dumps_at lvl x @ ?after"
      using False by simp
    then show ?thesis
      using v t
      by (simp add: f skip_ws_plain is_ws_def LF_def CR_def skip_ws_indent value_start_skip [OF start])
  qed
next
  case (9 lvl)
  then show ?case by simp
next
  case (10 lvl kv kvs)
  from "10.prems" obtain n where f: "f = Suc n" and nv: "nodes (snd kv) \<le> n"
    and nkvs: "nodes_pairs kvs \<le> n"
    by (cases f) auto
  from "10.prems" have wv: "wf_value (snd kv)" and wkvs: "wf_pairs kvs" by simp_all
  have key: "scan_string (tl (json_str (fst kv)) @ r) = Some (fst kv, r)" for r
    by (rule scan_json_str)
  have vs: "skip_ws (CHR '' '' # dumps_at lvl (snd kv) @ r) = dumps_at lvl (snd kv) @ r" for r
    using value_start_skip [OF value_start_append [OF value_start_dumps]]
    by (simp add: skip_ws_def is_ws_def)
  show ?case
  proof (cases "kvs = []")
    case True
    let ?after = "newline_indent k @ CHR ''}'' # rest"
    have v: "scan_value n (dumps_at lvl (snd kv) @ ?after) = Some (snd kv, ?after)"
      by (rule "10.IH"(1) [OF wv nv]) (rule follow_ok_simps)
    have e: "dumps_pairs lvl (kv # kvs) @ newline_indent k @ CHR ''}'' # rest =
        DQUOTE # tl (json_str (fst kv)) @ CHR '':'' # CHR '' '' # dumps_at lvl (snd kv) @ ?after"
      using True by (simp add: json_str_def)
    show ?thesis
      unfolding e using v
      by (simp add: f key skip_ws_plain is_ws_def LF_def CR_def vs skip_ws_close True)
  next
    case False
    let ?tail = "dumps_pairs lvl kvs @ newline_indent k @ CHR ''}'' # rest"
    let ?after = "CHR '','' # newline_indent lvl @ ?tail"
    obtain cs where cs: "dumps_pairs lvl kvs = DQUOTE # cs"
      using pairs_start [OF False] by blast
    have skip: "skip_ws ?tail = ?tail"
      by (simp add: cs skip_ws_plain is_ws_def DQUOTE_def LF_def CR_def)
    have v: "scan_value n (dumps_at lvl (snd kv) @ ?after) = Some (snd kv, ?after)"
      by (rule "10.IH"(1) [OF wv nv]) (rule follow_ok_simps)
    have t: "scan_pairs n ?tail = Some (kvs, rest)"
      by (rule "10.IH"(2) [OF False False wkvs nkvs])
    have e: "dumps_pairs lvl (kv # kvs) @ newline_indent k @ CHR ''}'' # rest =
        DQUOTE # tl (json_str (fst kv)) @ CHR '':'' # CHR '' '' # dumps_at lvl (snd kv) @ ?after"
      using False by (simp add: json_str_def)
    show ?thesis
      unfolding e using v t
      by (simp add: f key skip_ws_plain is_ws_def LF_def CR_def vs skip_ws_indent skip)
  qed
qed

lemma nodes_le_length:
  "nodes v \<le> length (dumps_at lvl v)"
  and "nodes_items xs \<le> Suc (length (dumps_items lvl xs))"
  and "nodes_pairs kvs \<le> Suc (length (dumps_pairs lvl kvs))"
proof (induction lvl v and lvl xs and lvl kvs rule: dumps_at_dumps_items_dumps_pairs.induct)
  case (3 lvl i)
  obtain c cs where "str_int i = c # cs"
    using str_int_start by blast
  then show ?case by simp
next
  case (4 lvl s)
  show ?case by (simp add: json_str_def)
next
  case (5 lvl xs)
  then show ?case by (cases "xs = []") (simp_all add: newline_indent_def)
next
  case (6 lvl kvs)
  then show ?case by (cases "kvs = []") (simp_all add: newline_indent_def)
next
  case (8 lvl x xs)
  then show ?case by (cases "xs = []") (simp_all add: newline_indent_def)
next
  case (10 lvl kv kvs)
  then show ?case by (cases "kvs = []") (simp_all add: newline_indent_def)
qed simp_all

lemma json_round_trip: "wf_value v \<Longrightarrow> json_loads (json_dumps v) = Some v"
proof -
  assume wf: "wf_value v"
  define s where "s = dumps_at 0 v"
  have fuel: "nodes v \<le> Suc (length s)"
    using nodes_le_length(1) [of v 0] by (simp add: s_def)
  have "scan_value (Suc (length s)) (dumps_at 0 v @ []) = Some (v, [])"
    by (rule scan_dumps(1) [OF wf fuel]) (rule follow_ok_simps)
  then have scan: "scan_value (Suc (length s)) s = Some (v, [])"
    by (simp only: s_def append_Nil2)
  have skip: "skip_ws s = s"
    unfolding s_def by (rule value_start_skip [OF value_start_dumps])
  have "json_loads s = Some v"
    unfolding json_loads_def skip scan by (simp add: skip_ws_def)
  then show ?thesis
    by (simp only: json_dumps_def s_def)
qed

lemma suffix_out_json: "path_suffix ''out.json'' = ''.json''" "path_str ''out.json'' = ''out.json''"
  by (simp_all add: path_suffix_def path_name_def path_parts_def rfind_def Let_def path_str_def
      path_root_def)

lemma emit_output_json:
  assumes "path_suffix p = ''.json''" and "can_open w (path_str p)"
  shows "emit_output w (Some p) final_data s =
     (Inr (), write_file (path_str p) (json_dumps (PDict [(''Data'', PList final_data)]))
        (print_line ''Creating JSON'' s))"
proof -
  from assms(1) have p: "truthy (Some p)"
    by (auto simp: truthy_def path_suffix_Nil)
  have ne: "''.json'' \<noteq> ''.csv''" by simp
  show ?thesis
    unfolding emit_output_def using p assms ne by (simp add: Let_def)
qed

text \<open>
  Claim C6. For every list of N records, writing them to a JSON output file and parsing the
  file back yields the object whose key \<^verbatim>\<open>Data\<close> holds an array of the N records, equal to the
  records in memory value by value and in the same order. The file is the one at the given
  path, and the run of the output stage succeeds.
\<close>

theorem json_file_round_trip:
  assumes "wf_items final_data" and "path_suffix p = ''.json''" and "can_open w (path_str p)"
  shows "\<exists>content.
     fst (emit_output w (Some p) final_data s) = Inr () \<and>
     files (snd (emit_output w (Some p) final_data s)) (path_str p) = Some content \<and>
     json_loads content = Some (PDict [(''Data'', PList final_data)]) \<and>
     subscript_str (PDict [(''Data'', PList final_data)]) ''Data'' = Inr (PList final_data)"
proof -
  have wf: "wf_value (PDict [(''Data'', PList final_data)])"
    using assms(1) by simp
  have written: "files (snd (emit_output w (Some p) final_data s)) (path_str p) =
      Some (json_dumps (PDict [(''Data'', PList final_data)]))"
    by (simp add: emit_output_json [OF assms(2,3)] write_file_def)
  have ok: "fst (emit_output w (Some p) final_data s) = Inr ()"
    by (simp add: emit_output_json [OF assms(2,3)])
  have sub: "subscript_str (PDict [(''Data'', PList final_data)]) ''Data'' = Inr (PList final_data)"
    by (simp add: subscript_str_def py_getitem_def)
  from written ok sub json_round_trip [OF wf] show ?thesis
    by blast
qed

theorem json_file_round_trip_witness:
  "\<exists>content.
     files (snd (emit_output acme_world (Some ''out.json'')
        [acme_record ''acme/widgets'', acme_record ''acme/gadgets''] empty_state)) ''out.json'' =
       Some content \<and>
     json_loads content =
       Some (PDict [(''Data'', PList [acme_record ''acme/widgets'', acme_record ''acme/gadgets''])])"
proof -
  have a: "wf_items [acme_record ''acme/widgets'', acme_record ''acme/gadgets'']"
    by (simp add: acme_record_def)
  have b: "can_open acme_world (path_str ''out.json'')"
    by (rule acme_can_open)
  from json_file_round_trip [OF a suffix_out_json(1) b, of empty_state] show ?thesis
    unfolding suffix_out_json(2) by blast
qed

end
